theory Spec2Isabelle
  imports Main "HOL-Library.AList" "HOL-Library.List_Lexorder" "HOL-Library.Char_ord"
begin

text \<open>
  A model of the YCCE ingestion pipeline: the crawler (\<^verbatim>\<open>crawler/spider.py\<close>), the
  deduplicator (\<^verbatim>\<open>processor/deduplicator.py\<close>), the embedding call
  (\<^verbatim>\<open>processor/embedder.py\<close>), the table client (\<^verbatim>\<open>database/supabase_client.py\<close>)
  and the orchestrator (\<^verbatim>\<open>main.py\<close>). The definitions come first, each next to the
  Python it follows; the theorems about them come after.
\<close>

section \<open>Python values shared by the pipeline\<close>

text \<open>
  Exceptions of the Python source are values. A function that can raise returns
  \<open>py_error + 'a\<close>, with \<open>Inl\<close> the exception that reaches the caller.
\<close>

datatype py_error =
    KeyError string
  | RuntimeError string
  | RequestException string
  | EnvironmentError "string list"
  | ParseError string
  | ValueError string

text \<open>
  The pipeline passes chunks around as dicts with a fixed set of keys
  (\<^verbatim>\<open>chunk_document\<close> builds them with \<^verbatim>\<open>url\<close>, \<^verbatim>\<open>title\<close>, \<^verbatim>\<open>type\<close>,
  \<^verbatim>\<open>chunk_index\<close> and \<^verbatim>\<open>content\<close>). The key \<^verbatim>\<open>content_hash\<close> is the only one
  that is absent at first and added later, so it is an optional field: reading it while
  it is absent is Python's \<^verbatim>\<open>KeyError\<close>. Strings are byte strings (the UTF-8 encoding
  of the Python \<^verbatim>\<open>str\<close>).
\<close>

record chunk =
  url :: string
  title :: string
  type :: string
  chunk_index :: nat
  content :: string
  content_hash :: "string option"

text \<open>
  A Python \<^verbatim>\<open>dict[str, set[str]]\<close> is an association list in insertion order.
  \<^verbatim>\<open>d.get(k, set())\<close> is \<open>dict_get_set\<close>; \<^verbatim>\<open>d.setdefault(k, set()).add(v)\<close>
  is \<open>setdefault_add\<close>: an existing key keeps its position, a new key goes last.
\<close>

type_synonym hash_dict = "(string \<times> string set) list"

definition dict_get_set :: "hash_dict \<Rightarrow> string \<Rightarrow> string set" where
  "dict_get_set d k = (case map_of d k of None \<Rightarrow> {} | Some s \<Rightarrow> s)"

definition setdefault_add :: "string \<Rightarrow> string \<Rightarrow> hash_dict \<Rightarrow> hash_dict" where
  "setdefault_add k v d = AList.update k (insert v (dict_get_set d k)) d"

definition dict_keys :: "hash_dict \<Rightarrow> string set" where
  "dict_keys d = set (map fst d)"

section \<open>processor/deduplicator.py\<close>

text \<open>
  \<^verbatim>\<open>compute_hash(text)\<close> is \<^verbatim>\<open>hashlib.sha256(text.encode("utf-8")).hexdigest()\<close>.
  The digest function belongs to the Python standard library; it is the parameter
  \<open>sha256_hex\<close> (bytes to hexadecimal digest) of everything that hashes.
\<close>

definition encode_utf8 :: "string \<Rightarrow> string" where
  "encode_utf8 text = text"

definition compute_hash :: "(string \<Rightarrow> string) \<Rightarrow> string \<Rightarrow> string" where
  "compute_hash sha256_hex text = sha256_hex (encode_utf8 text)"

text \<open>
  \<^verbatim>\<open>compute_hashes_for_chunks\<close>: the loop writes \<^verbatim>\<open>chunk["content_hash"]\<close> in every
  chunk, in list order, and the list is returned.
\<close>

definition set_content_hash :: "(string \<Rightarrow> string) \<Rightarrow> chunk \<Rightarrow> chunk" where
  "set_content_hash sha256_hex c = c\<lparr>content_hash := Some (compute_hash sha256_hex (content c))\<rparr>"

fun compute_hashes_for_chunks :: "(string \<Rightarrow> string) \<Rightarrow> chunk list \<Rightarrow> chunk list" where
  "compute_hashes_for_chunks sha256_hex [] = []"
| "compute_hashes_for_chunks sha256_hex (c # cs) =
     set_content_hash sha256_hex c # compute_hashes_for_chunks sha256_hex cs"

text \<open>
  \<^verbatim>\<open>find_changed_urls\<close>, first loop: group the new chunks by URL. Reading
  \<^verbatim>\<open>chunk["content_hash"]\<close> of a chunk that has none raises \<^verbatim>\<open>KeyError\<close>.
\<close>

fun group_by_url :: "chunk list \<Rightarrow> hash_dict \<Rightarrow> py_error + hash_dict" where
  "group_by_url [] new_by_url = Inr new_by_url"
| "group_by_url (c # cs) new_by_url =
     (case content_hash c of
        None \<Rightarrow> Inl (KeyError ''content_hash'')
      | Some h \<Rightarrow> group_by_url cs (setdefault_add (url c) h new_by_url))"

text \<open>Second loop: over \<^verbatim>\<open>new_by_url.items()\<close>, collecting the URLs whose sets differ.\<close>

fun collect_changed :: "(string \<times> string set) list \<Rightarrow> hash_dict \<Rightarrow> string set \<Rightarrow> string set" where
  "collect_changed [] existing_hashes changed_urls = changed_urls"
| "collect_changed ((u, new_hash_set) # items) existing_hashes changed_urls =
     (let old_hash_set = dict_get_set existing_hashes u
      in collect_changed items existing_hashes
           (if new_hash_set \<noteq> old_hash_set then insert u changed_urls else changed_urls))"

definition find_changed_urls :: "chunk list \<Rightarrow> hash_dict \<Rightarrow> py_error + string set" where
  "find_changed_urls new_chunks existing_hashes =
     (case group_by_url new_chunks [] of
        Inl e \<Rightarrow> Inl e
      | Inr new_by_url \<Rightarrow> Inr (collect_changed new_by_url existing_hashes {}))"

text \<open>
  The fingerprints of the fresh chunks of one URL, and the URLs of a chunk list; both are
  used to state what the functions above compute.
\<close>

definition fresh_fingerprints :: "chunk list \<Rightarrow> string \<Rightarrow> string set" where
  "fresh_fingerprints cs u =
     set (List.map_filter (\<lambda>c. if url c = u then content_hash c else None) cs)"

definition fresh_urls :: "chunk list \<Rightarrow> string set" where
  "fresh_urls cs = set (map url cs)"

definition all_hashed :: "chunk list \<Rightarrow> bool" where
  "all_hashed cs = list_all (\<lambda>c. content_hash c \<noteq> None) cs"

text \<open>
  \<^verbatim>\<open>compute_hashes_for_chunks\<close> changes the dicts of the caller in place and returns the
  list object it was given. To state that, objects live in a store: a reference to a
  list object gives the references of its elements, a reference to a dict gives the
  chunk. The same dict may occur at several positions of a list.
\<close>

type_synonym ref = nat

record py_store =
  dict_at :: "ref \<Rightarrow> chunk"
  list_at :: "ref \<Rightarrow> ref list"

fun hash_loop :: "(string \<Rightarrow> string) \<Rightarrow> ref list \<Rightarrow> (ref \<Rightarrow> chunk) \<Rightarrow> (ref \<Rightarrow> chunk)" where
  "hash_loop sha256_hex [] dicts = dicts"
| "hash_loop sha256_hex (r # rs) dicts =
     hash_loop sha256_hex rs (dicts(r := set_content_hash sha256_hex (dicts r)))"

definition compute_hashes_for_chunks_in_place ::
  "(string \<Rightarrow> string) \<Rightarrow> py_store \<Rightarrow> ref \<Rightarrow> py_store \<times> ref" where
  "compute_hashes_for_chunks_in_place sha256_hex st chunks =
     (st\<lparr>dict_at := hash_loop sha256_hex (list_at st chunks) (dict_at st)\<rparr>, chunks)"

text \<open>What a list reference denotes: the chunks at its positions.\<close>

definition read_list :: "py_store \<Rightarrow> ref \<Rightarrow> chunk list" where
  "read_list st l = map (dict_at st) (list_at st l)"

section \<open>Python string operations\<close>

text \<open>
  The string methods of the sources that look for ASCII text, on byte strings (the
  UTF-8 encoding of a \<^verbatim>\<open>str\<close>, in which an ASCII byte is always an ASCII character).
  \<^verbatim>\<open>str.lower\<close> and \<^verbatim>\<open>str.strip\<close> follow the Unicode character database; they are
  not defined here but taken as parameters where the crawler calls them.
\<close>

definition startswith :: "string \<Rightarrow> string \<Rightarrow> bool" where
  "startswith s p = (take (length p) s = p)"

definition endswith :: "string \<Rightarrow> string \<Rightarrow> bool" where
  "endswith s p = (length p \<le> length s \<and> drop (length s - length p) s = p)"

definition rstrip_chars :: "string \<Rightarrow> string \<Rightarrow> string" where
  "rstrip_chars s cs = rev (dropWhile (\<lambda>c. c \<in> set cs) (rev s))"

text \<open>\<^verbatim>\<open>s.split(sep)[0]\<close> for a separator of one character.\<close>

definition split_first :: "string \<Rightarrow> char \<Rightarrow> string" where
  "split_first s sep = takeWhile (\<lambda>c. c \<noteq> sep) s"

text \<open>
  \<^verbatim>\<open>s.replace(old, new)\<close>: every occurrence of \<open>old\<close>, found from the left without
  overlap, is replaced. With an empty \<open>old\<close> Python puts \<open>new\<close> before every character
  and at the end; in UTF-8 a character starts at every byte that is not a continuation
  byte (\<open>0x80\<close> to \<open>0xBF\<close>).
\<close>

definition is_continuation :: "char \<Rightarrow> bool" where
  "is_continuation c = (128 \<le> (of_char c :: nat) \<and> (of_char c :: nat) < 192)"

fun replace_nonempty :: "string \<Rightarrow> string \<Rightarrow> string \<Rightarrow> string" where
  "replace_nonempty old new [] = []"
| "replace_nonempty old new (c # cs) =
     (if old \<noteq> [] \<and> take (length old) (c # cs) = old
      then new @ replace_nonempty old new (drop (length old) (c # cs))
      else c # replace_nonempty old new cs)"

definition replace :: "string \<Rightarrow> string \<Rightarrow> string \<Rightarrow> string" where
  "replace s old new =
     (if old = []
      then concat (map (\<lambda>c. if is_continuation c then [c] else new @ [c]) s) @ new
      else replace_nonempty old new s)"

text \<open>\<^verbatim>\<open>sub in s\<close> on strings.\<close>

fun contains :: "string \<Rightarrow> string \<Rightarrow> bool" where
  "contains [] sub = (sub = [])"
| "contains (c # cs) sub = (take (length sub) (c # cs) = sub \<or> contains cs sub)"

section \<open>config.py\<close>

text \<open>
  The settings read from the environment. A setting that \<^verbatim>\<open>os.getenv\<close> does not find is
  \<open>None\<close>. \<^verbatim>\<open>validate\<close> raises when a required one is absent or empty.
\<close>

record config =
  SUPABASE_URL :: "string option"
  SUPABASE_SERVICE_KEY :: "string option"
  SUPABASE_ANON_KEY :: "string option"
  TARGET_DOMAIN :: string
  MAX_PAGES :: int
  MAX_PDFS :: int

definition falsy :: "string option \<Rightarrow> bool" where
  "falsy v = (v = None \<or> v = Some [])"

definition validate :: "config \<Rightarrow> py_error + unit" where
  "validate cfg =
     (let missing = (if falsy (SUPABASE_URL cfg) then [''SUPABASE_URL''] else [])
                  @ (if falsy (SUPABASE_SERVICE_KEY cfg) then [''SUPABASE_SERVICE_KEY''] else [])
                  @ (if falsy (SUPABASE_ANON_KEY cfg) then [''SUPABASE_ANON_KEY''] else [])
      in if missing \<noteq> [] then Inl (EnvironmentError missing) else Inr ())"

section \<open>crawler/spider.py\<close>

text \<open>
  What the crawler takes from libraries and from the network is a parameter:
  \<^item> \<open>str_lower\<close> and \<open>str_strip\<close> are \<^verbatim>\<open>str.lower\<close> and \<^verbatim>\<open>str.strip\<close>;
  \<^item> \<open>url_netloc u\<close> is \<^verbatim>\<open>urlparse(u).netloc\<close>;
  \<^item> \<open>url_path_ext u\<close> is \<^verbatim>\<open>os.path.splitext(urlparse(u).path)[1]\<close>;
  \<^item> \<open>urljoin base href\<close> is \<^verbatim>\<open>urllib.parse.urljoin\<close>;
  \<^item> \<open>http_get u\<close> is what \<^verbatim>\<open>session.get(u)\<close> gives: an exception, or a response
    with its \<^verbatim>\<open>Content-Type\<close> header (empty when absent), whether
    \<^verbatim>\<open>raise_for_status\<close> passes, and the \<^verbatim>\<open>href\<close> values of the \<^verbatim>\<open>a\<close> tags that
    BeautifulSoup finds in the body, in document order;
  \<^item> \<open>sitemap_file\<close> is \<open>None\<close> when no \<^verbatim>\<open>sitemap.xml\<close> exists beside the sources,
    and otherwise what \<^verbatim>\<open>ET.parse\<close> does with it: the exception it raises, or the
    root element.

  \<^verbatim>\<open>urlparse\<close> and \<^verbatim>\<open>urljoin\<close> raise \<^verbatim>\<open>ValueError\<close> on some strings (a bracket
  without its partner in the authority, for one). The crawler calls them outside any
  \<^verbatim>\<open>try\<close>, so the three URL functions give a result or the exception, and the
  exception ends the crawl.
\<close>

datatype http_result =
    GetFailed
  | GetResponse (content_type: string) (status_ok: bool) (hrefs: "string list")

datatype xml = Element (elem_tag: string) (elem_text: "string option") (elem_children: "xml list")

record web =
  str_lower :: "string \<Rightarrow> string"
  str_strip :: "string \<Rightarrow> string"
  url_netloc :: "string \<Rightarrow> py_error + string"
  url_path_ext :: "string \<Rightarrow> py_error + string"
  urljoin :: "string \<Rightarrow> string \<Rightarrow> py_error + string"
  http_get :: "string \<Rightarrow> http_result"
  sitemap_file :: "(py_error + xml) option"

definition get_base_domain :: "web \<Rightarrow> string \<Rightarrow> string" where
  "get_base_domain w netloc = replace (str_lower w netloc) ''www.'' ''''"

subsection \<open>Sitemap strategy\<close>

definition sitemap_ns :: string where
  "sitemap_ns = ''http://www.sitemaps.org/schemas/sitemap/0.9''"

definition ns_tag :: "string \<Rightarrow> string" where
  "ns_tag name = ''{'' @ sitemap_ns @ ''}'' @ name"

text \<open>\<^verbatim>\<open>elem.findall("sm:x", ns)\<close> and \<^verbatim>\<open>elem.find("sm:x", ns)\<close>: direct children.\<close>

definition findall :: "xml \<Rightarrow> string \<Rightarrow> xml list" where
  "findall elem name = filter (\<lambda>e. elem_tag e = ns_tag name) (elem_children elem)"

definition find_first :: "xml \<Rightarrow> string \<Rightarrow> xml option" where
  "find_first elem name = (case findall elem name of [] \<Rightarrow> None | e # _ \<Rightarrow> Some e)"

definition skip_extensions :: "string set" where
  "skip_extensions = {''.doc'', ''.docx'', ''.jpg'', ''.jpeg'', ''.png'', ''.gif'', ''.webp'',
                      ''.svg'', ''.mp4'', ''.mp3'', ''.zip''}"

text \<open>
  The location of one \<^verbatim>\<open>url\<close> element, stripped; \<open>None\<close> when the loop skips the
  element because it has no \<^verbatim>\<open>loc\<close> child or the child has no text.
\<close>

definition loc_of :: "web \<Rightarrow> xml \<Rightarrow> string option" where
  "loc_of w url_elem =
     (case find_first url_elem ''loc'' of
        None \<Rightarrow> None
      | Some loc \<Rightarrow>
          (case elem_text loc of
             None \<Rightarrow> None
           | Some t \<Rightarrow> if t = [] then None else Some (str_strip w t)))"

text \<open>
  One iteration of the loop of \<^verbatim>\<open>_load_sitemap\<close> on the two result sets, or the
  exception that \<^verbatim>\<open>urlparse\<close> raises on the location.
\<close>

definition sitemap_step ::
  "web \<Rightarrow> config \<Rightarrow> xml \<Rightarrow> string set \<times> string set
     \<Rightarrow> py_error + string set \<times> string set" where
  "sitemap_step w cfg url_elem acc =
     (case acc of (page_urls, pdf_urls) \<Rightarrow>
        (case loc_of w url_elem of
           None \<Rightarrow> Inr (page_urls, pdf_urls)
         | Some u \<Rightarrow>
             (let lower_url = str_lower w u
              in case url_path_ext w lower_url of
                   Inl e \<Rightarrow> Inl e
                 | Inr ext \<Rightarrow>
                     if ext \<in> skip_extensions then Inr (page_urls, pdf_urls)
                     else if endswith lower_url ''.pdf''
                     then (if int (card pdf_urls) < MAX_PDFS cfg
                           then Inr (page_urls, insert u pdf_urls)
                           else Inr (page_urls, pdf_urls))
                     else (if int (card page_urls) < MAX_PAGES cfg
                           then Inr (insert u page_urls, pdf_urls)
                           else Inr (page_urls, pdf_urls)))))"

fun sitemap_loop ::
  "web \<Rightarrow> config \<Rightarrow> xml list \<Rightarrow> string set \<times> string set
     \<Rightarrow> py_error + string set \<times> string set" where
  "sitemap_loop w cfg [] acc = Inr acc"
| "sitemap_loop w cfg (e # es) acc =
     (case sitemap_step w cfg e acc of
        Inl err \<Rightarrow> Inl err
      | Inr acc' \<Rightarrow> sitemap_loop w cfg es acc')"

definition load_sitemap :: "web \<Rightarrow> config \<Rightarrow> (py_error + xml) \<Rightarrow> py_error + string set \<times> string set" where
  "load_sitemap w cfg parsed =
     (case parsed of
        Inl e \<Rightarrow> Inl e
      | Inr root \<Rightarrow> sitemap_loop w cfg (findall root ''url'') ({}, {}))"

subsection \<open>Breadth-first strategy\<close>

record bfs_state =
  queue :: "string list"
  visited :: "string set"
  page_urls :: "string set"
  pdf_urls :: "string set"

definition skipped_href :: "string \<Rightarrow> bool" where
  "skipped_href href =
     (startswith href ''javascript:'' \<or> startswith href ''mailto:''
      \<or> startswith href ''tel:'' \<or> startswith href ''#'')"

text \<open>
  The inner loop over the links of a fetched page: the queue with the links in scope
  appended, or the exception of \<^verbatim>\<open>urljoin\<close> or \<^verbatim>\<open>urlparse\<close> on a link.
\<close>

fun enqueue_links ::
  "web \<Rightarrow> string \<Rightarrow> string \<Rightarrow> string list \<Rightarrow> string list \<Rightarrow> py_error + string list" where
  "enqueue_links w base_domain u [] q = Inr q"
| "enqueue_links w base_domain u (h # hs) q =
     (let href = str_strip w h
      in if skipped_href href then enqueue_links w base_domain u hs q
         else
           (case urljoin w u href of
              Inl e \<Rightarrow> Inl e
            | Inr full_url \<Rightarrow>
                (case url_netloc w full_url of
                   Inl e \<Rightarrow> Inl e
                 | Inr netloc \<Rightarrow>
                     (let link_domain = get_base_domain w netloc
                      in enqueue_links w base_domain u hs
                           (if link_domain = base_domain then q @ [full_url] else q)))))"

text \<open>
  One iteration of the \<^verbatim>\<open>while queue\<close> loop: \<open>Finished\<close> when the loop ends here (the
  queue is empty, or the \<^verbatim>\<open>break\<close>) with the two result sets, \<open>Continue\<close> with the
  state for the next iteration (every \<^verbatim>\<open>continue\<close> and the end of the body), \<open>Raised\<close>
  when an exception leaves the loop.
\<close>

datatype bfs_outcome =
    Continue bfs_state
  | Finished "string set \<times> string set"
  | Raised py_error

definition bfs_step :: "web \<Rightarrow> config \<Rightarrow> string \<Rightarrow> bfs_state \<Rightarrow> bfs_outcome" where
  "bfs_step w cfg base_domain s =
     (case queue s of
        [] \<Rightarrow> Finished (page_urls s, pdf_urls s)
      | raw # rest \<Rightarrow>
          if int (card (page_urls s)) \<ge> MAX_PAGES cfg \<and> int (card (pdf_urls s)) \<ge> MAX_PDFS cfg
          then Finished (page_urls s, pdf_urls s)
          else
            (let u = rstrip_chars (split_first raw CHR ''#'') ''/'';
                 s1 = s\<lparr>queue := rest\<rparr>
             in if \<not> startswith u ''http'' then Continue s1
                else if u \<in> visited s1 then Continue s1
                else
                  (let s2 = s1\<lparr>visited := insert u (visited s1)\<rparr>
                   in case url_netloc w u of
                        Inl e \<Rightarrow> Raised e
                      | Inr netloc \<Rightarrow>
                          if get_base_domain w netloc \<noteq> base_domain then Continue s2
                          else if endswith (str_lower w u) ''.pdf''
                          then Continue (if int (card (pdf_urls s2)) < MAX_PDFS cfg
                                         then s2\<lparr>pdf_urls := insert u (pdf_urls s2)\<rparr>
                                         else s2)
                          else if int (card (page_urls s2)) \<ge> MAX_PAGES cfg then Continue s2
                          else
                            (case http_get w u of
                               GetFailed \<Rightarrow> Continue s2
                             | GetResponse ctype ok links \<Rightarrow>
                                 if \<not> contains ctype ''text/html'' then Continue s2
                                 else if \<not> ok then Continue s2
                                 else
                                   (case enqueue_links w base_domain u links (queue s2) of
                                      Inl e \<Rightarrow> Raised e
                                    | Inr q \<Rightarrow>
                                        Continue (s2\<lparr>page_urls := insert u (page_urls s2),
                                                      queue := q\<rparr>))))))"

text \<open>
  The loop. It runs for as long as pages keep linking to new pages, so it is a partial
  function: \<open>None\<close> is a loop that does not end.
\<close>

partial_function (option) bfs_loop ::
  "web \<Rightarrow> config \<Rightarrow> string \<Rightarrow> bfs_state \<Rightarrow> (py_error + string set \<times> string set) option" where
  "bfs_loop w cfg base_domain s =
     (case bfs_step w cfg base_domain s of
        Finished result \<Rightarrow> Some (Inr result)
      | Raised e \<Rightarrow> Some (Inl e)
      | Continue s' \<Rightarrow> bfs_loop w cfg base_domain s')"

declare bfs_loop.simps [code]

text \<open>The state in which \<^verbatim>\<open>_bfs_crawl\<close> enters its loop.\<close>

definition bfs_init :: "string \<Rightarrow> bfs_state" where
  "bfs_init seed = \<lparr>queue = [seed], visited = {}, page_urls = {}, pdf_urls = {}\<rparr>"

definition bfs_crawl ::
  "web \<Rightarrow> config \<Rightarrow> string option \<Rightarrow> (py_error + string set \<times> string set) option" where
  "bfs_crawl w cfg seed_url =
     (let seed = (case seed_url of None \<Rightarrow> TARGET_DOMAIN cfg
                  | Some u \<Rightarrow> if u = [] then TARGET_DOMAIN cfg else u)
      in case url_netloc w seed of
           Inl e \<Rightarrow> Some (Inl e)
         | Inr netloc \<Rightarrow> bfs_loop w cfg (get_base_domain w netloc) (bfs_init seed))"

text \<open>
  \<^verbatim>\<open>crawl\<close>: the sitemap when the file exists, the breadth-first crawl otherwise. The
  outer \<open>option\<close> is termination, the sum is the exception.
\<close>

definition crawl ::
  "web \<Rightarrow> config \<Rightarrow> string option \<Rightarrow> (py_error + string set \<times> string set) option" where
  "crawl w cfg seed_url =
     (case sitemap_file w of
        Some parsed \<Rightarrow> Some (load_sitemap w cfg parsed)
      | None \<Rightarrow> bfs_crawl w cfg seed_url)"

text \<open>
  The entries of a sitemap in source order: the stripped locations of the elements
  that have one, those on which \<^verbatim>\<open>urlparse\<close> does not raise, and among them the
  page-type entries (neither skipped nor taken for a PDF) and the PDF entries.
\<close>

definition locations :: "web \<Rightarrow> xml list \<Rightarrow> string list" where
  "locations w es = List.map_filter (loc_of w) es"

definition parses :: "web \<Rightarrow> string \<Rightarrow> bool" where
  "parses w u = (case url_path_ext w (str_lower w u) of Inl e \<Rightarrow> False | Inr ext \<Rightarrow> True)"

definition is_page_entry :: "web \<Rightarrow> string \<Rightarrow> bool" where
  "is_page_entry w u =
     (case url_path_ext w (str_lower w u) of
        Inl e \<Rightarrow> False
      | Inr ext \<Rightarrow> ext \<notin> skip_extensions \<and> \<not> endswith (str_lower w u) ''.pdf'')"

definition is_pdf_entry :: "web \<Rightarrow> string \<Rightarrow> bool" where
  "is_pdf_entry w u =
     (case url_path_ext w (str_lower w u) of
        Inl e \<Rightarrow> False
      | Inr ext \<Rightarrow> ext \<notin> skip_extensions \<and> endswith (str_lower w u) ''.pdf'')"



definition all_parse :: "web \<Rightarrow> xml list \<Rightarrow> bool" where
  "all_parse w es = list_all (parses w) (locations w es)"

text \<open>
  Adding an entry of one category to its result set while the cap allows, which is
  what the loop does with the entries of that category in their order.
\<close>

definition add_capped :: "int \<Rightarrow> string \<Rightarrow> string set \<Rightarrow> string set" where
  "add_capped cap u A = (if int (card A) < cap then insert u A else A)"

text \<open>A pair of result sets in which the PDFs, and only they, end in \<^verbatim>\<open>.pdf\<close>.\<close>

definition is_pdf_url :: "web \<Rightarrow> string \<Rightarrow> bool" where
  "is_pdf_url w u = endswith (str_lower w u) ''.pdf''"

definition classified :: "web \<Rightarrow> string set \<Rightarrow> string set \<Rightarrow> bool" where
  "classified w pages pdfs = (Ball pdfs (is_pdf_url w) \<and> Ball pages (\<lambda>u. \<not> is_pdf_url w u))"

text \<open>
  What the loop keeps true of its state: the page set is finite and every page was
  marked visited before it was added.
\<close>

definition bfs_inv :: "bfs_state \<Rightarrow> bool" where
  "bfs_inv s = (finite (page_urls s) \<and> page_urls s \<subseteq> visited s)"

text \<open>All result URLs lie in the scope that the crawler computes for the seed.\<close>

definition in_scope :: "web \<Rightarrow> string \<Rightarrow> string \<Rightarrow> bool" where
  "in_scope w base_domain u =
     (case url_netloc w u of
        Inl e \<Rightarrow> False
      | Inr netloc \<Rightarrow> get_base_domain w netloc = base_domain)"

definition scoped :: "web \<Rightarrow> string \<Rightarrow> string set \<Rightarrow> string set \<Rightarrow> bool" where
  "scoped w base_domain pages pdfs = Ball (pages \<union> pdfs) (in_scope w base_domain)"

section \<open>processor/embedder.py\<close>

text \<open>
  One \<^verbatim>\<open>requests.post\<close> to the Edge Function either raises a
  \<^verbatim>\<open>RequestException\<close> (no connection, timeout) or gives a response with a status
  code; \<open>json_embedding\<close> is what \<^verbatim>\<open>resp.json()["embedding"]\<close> evaluates to on that
  response, a vector or the exception it raises. The embedding vector is of an
  arbitrary type \<open>'e\<close>.
\<close>

datatype 'e post_result =
    PostFailed
  | PostResponse (status_code: int) (json_embedding: "py_error + 'e")

definition is_request_exception :: "py_error \<Rightarrow> bool" where
  "is_request_exception e = (case e of RequestException _ \<Rightarrow> True | _ \<Rightarrow> False)"

text \<open>
  The \<^verbatim>\<open>for attempt in range(retries)\<close> loop of \<^verbatim>\<open>_call_embed\<close>, from a given
  attempt on. \<open>post a\<close> is the outcome of the POST of attempt \<open>a\<close>. The result has the
  waits passed to \<^verbatim>\<open>time.sleep\<close> so far (in seconds), the number of POSTs made, and the
  vector returned or the exception raised.
  \<^verbatim>\<open>raise_for_status\<close> raises \<^verbatim>\<open>HTTPError\<close>, a \<^verbatim>\<open>RequestException\<close>, on a status from
  400 to 599; the \<^verbatim>\<open>except\<close> clause catches every \<^verbatim>\<open>RequestException\<close> of the body.
\<close>

function call_embed_from ::
  "(nat \<Rightarrow> 'e post_result) \<Rightarrow> int \<Rightarrow> nat \<Rightarrow> nat list \<Rightarrow> nat list \<times> nat \<times> (py_error + 'e)" where
  "call_embed_from post retries attempt waits =
     (if int attempt < retries then
        (case post attempt of
           PostFailed \<Rightarrow>
             if int attempt < retries - 1
             then call_embed_from post retries (attempt + 1) (waits @ [2 ^ attempt * 2])
             else (waits, attempt + 1, Inl (RequestException ''post''))
         | PostResponse status body \<Rightarrow>
             if status = 546 \<or> status \<ge> 500
             then call_embed_from post retries (attempt + 1) (waits @ [2 ^ attempt * 2])
             else if 400 \<le> status \<and> status < 600
             then (if int attempt < retries - 1
                   then call_embed_from post retries (attempt + 1) (waits @ [2 ^ attempt * 2])
                   else (waits, attempt + 1, Inl (RequestException ''HTTPError'')))
             else
               (case body of
                  Inr embedding \<Rightarrow> (waits, attempt + 1, Inr embedding)
                | Inl e \<Rightarrow>
                    if is_request_exception e
                    then (if int attempt < retries - 1
                          then call_embed_from post retries (attempt + 1) (waits @ [2 ^ attempt * 2])
                          else (waits, attempt + 1, Inl e))
                    else (waits, attempt + 1, Inl e)))
      else (waits, attempt, Inl (RuntimeError ''Failed to embed after retries'')))"
  by pat_completeness auto
termination
  by (relation "measure (\<lambda>(post, retries, attempt, waits). nat (retries - int attempt))") auto

text \<open>\<^verbatim>\<open>_call_embed(text, retries)\<close>; \<open>post text a\<close> is the POST of attempt \<open>a\<close>.\<close>

definition call_embed ::
  "(string \<Rightarrow> nat \<Rightarrow> 'e post_result) \<Rightarrow> string \<Rightarrow> int \<Rightarrow> nat list \<times> nat \<times> (py_error + 'e)" where
  "call_embed post txt retries = call_embed_from (post txt) retries 0 []"

definition default_retries :: int where
  "default_retries = 3"

text \<open>The statuses that the first test of the loop body sends to a retry.\<close>

definition transient :: "'e post_result \<Rightarrow> bool" where
  "transient r =
     (case r of PostFailed \<Rightarrow> False
      | PostResponse status body \<Rightarrow> status = 546 \<or> status \<ge> 500)"

section \<open>database/supabase_client.py\<close>

text \<open>
  The knowledge table is a list of rows. The Supabase client is not part of the
  sources; of the table only this is used: a select gives every row, a delete with
  \<^verbatim>\<open>eq("url", u)\<close> removes every row of that url, an insert adds the rows of the batch.
  Every call is written to a log, so that the calls of a run can be counted. The calls
  are taken to succeed.
\<close>

record metadata =
  md_title :: string
  md_type :: string
  md_updated_at :: string

record 'e row =
  row_url :: string
  row_chunk_index :: nat
  row_content :: string
  row_content_hash :: string
  row_embedding :: 'e
  row_metadata :: metadata

datatype 'e db_op = SelectAll | DeleteWhereUrl string | InsertBatch "'e row list"

text \<open>
  The state that a run changes: the table and its log, the number of POSTs sent to the
  Edge Function so far and the waits slept between them.
\<close>

record 'e state =
  db_rows :: "'e row list"
  db_log :: "'e db_op list"
  posts :: nat
  sleeps :: "nat list"

fun hashes_loop :: "'e row list \<Rightarrow> hash_dict \<Rightarrow> hash_dict" where
  "hashes_loop [] hashes = hashes"
| "hashes_loop (r # rs) hashes =
     hashes_loop rs (setdefault_add (row_url r) (row_content_hash r) hashes)"

definition get_existing_hashes :: "'e state \<Rightarrow> 'e state \<times> hash_dict" where
  "get_existing_hashes st =
     (st\<lparr>db_log := db_log st @ [SelectAll]\<rparr>, hashes_loop (db_rows st) [])"

definition delete_chunks_for_url :: "string \<Rightarrow> 'e state \<Rightarrow> 'e state" where
  "delete_chunks_for_url u st =
     st\<lparr>db_rows := filter (\<lambda>r. row_url r \<noteq> u) (db_rows st),
        db_log := db_log st @ [DeleteWhereUrl u]\<rparr>"

text \<open>The rows that \<^verbatim>\<open>upsert_chunks\<close> builds from \<^verbatim>\<open>zip(chunks, embeddings)\<close>.\<close>

fun make_rows :: "string \<Rightarrow> (chunk \<times> 'e) list \<Rightarrow> py_error + 'e row list" where
  "make_rows now [] = Inr []"
| "make_rows now ((c, embedding) # rest) =
     (case content_hash c of
        None \<Rightarrow> Inl (KeyError ''content_hash'')
      | Some h \<Rightarrow>
          (case make_rows now rest of
             Inl e \<Rightarrow> Inl e
           | Inr rs \<Rightarrow>
               Inr (\<lparr>row_url = url c, row_chunk_index = chunk_index c, row_content = content c,
                     row_content_hash = h, row_embedding = embedding,
                     row_metadata = \<lparr>md_title = title c, md_type = type c,
                                      md_updated_at = now\<rparr>\<rparr> # rs)))"

definition BATCH_SIZE :: nat where
  "BATCH_SIZE = 100"

function insert_batches :: "'e row list \<Rightarrow> 'e state \<Rightarrow> 'e state" where
  "insert_batches rs st =
     (if rs = [] then st
      else insert_batches (drop BATCH_SIZE rs)
             (st\<lparr>db_rows := db_rows st @ take BATCH_SIZE rs,
                 db_log := db_log st @ [InsertBatch (take BATCH_SIZE rs)]\<rparr>))"
  by pat_completeness auto
termination
  by (relation "measure (\<lambda>(rs, st). length rs)") (auto simp: BATCH_SIZE_def)

definition upsert_chunks ::
  "string \<Rightarrow> chunk list \<Rightarrow> 'e list \<Rightarrow> 'e state \<Rightarrow> 'e state \<times> (py_error + unit)" where
  "upsert_chunks now chunks embeddings st =
     (case make_rows now (zip chunks embeddings) of
        Inl e \<Rightarrow> (st, Inl e)
      | Inr rs \<Rightarrow> (insert_batches rs st, Inr ()))"

text \<open>The fingerprints that the table holds for one url, and the kinds of logged calls.\<close>

definition stored_fingerprints :: "'e state \<Rightarrow> string \<Rightarrow> string set" where
  "stored_fingerprints st u =
     set (map row_content_hash (filter (\<lambda>r. row_url r = u) (db_rows st)))"

definition is_delete :: "'e db_op \<Rightarrow> bool" where
  "is_delete op = (case op of DeleteWhereUrl _ \<Rightarrow> True | _ \<Rightarrow> False)"

definition is_insert :: "'e db_op \<Rightarrow> bool" where
  "is_insert op = (case op of InsertBatch _ \<Rightarrow> True | _ \<Rightarrow> False)"

section \<open>processor/chunker.py and main.py\<close>

record document =
  doc_url :: string
  doc_title :: string
  doc_content :: string
  doc_type :: string

text \<open>
  The collaborators of a run:
  \<^item> the two extractors, which fetch a URL and give a document or \<^verbatim>\<open>None\<close>;
  \<^item> \<open>split_text\<close>, the \<^verbatim>\<open>RecursiveCharacterTextSplitter\<close> with the configured sizes;
  \<^item> \<open>sha256_hex\<close>, the digest of \<^verbatim>\<open>hashlib\<close>;
  \<^item> \<open>embed_post n txt\<close>, the outcome of the \<open>n\<close>-th POST that the run sends to the
    Edge Function, when its payload is \<open>txt\<close>;
  \<^item> \<open>utc_now\<close>, the timestamp written to the rows;
  \<^item> \<open>iter_order\<close>, the order in which a \<^verbatim>\<open>for\<close> loop goes through a Python set.
\<close>

record 'e services =
  extract_text_from_html :: "string \<Rightarrow> document option"
  extract_text_from_pdf :: "string \<Rightarrow> document option"
  split_text :: "string \<Rightarrow> string list"
  sha256_hex :: "string \<Rightarrow> string"
  embed_post :: "nat \<Rightarrow> string \<Rightarrow> 'e post_result"
  utc_now :: string
  iter_order :: "string set \<Rightarrow> string list"

definition chunk_document :: "'e services \<Rightarrow> document \<Rightarrow> chunk list" where
  "chunk_document sv d =
     map (\<lambda>(i, t). \<lparr>url = doc_url d, title = doc_title d, type = doc_type d,
                     chunk_index = i, content = t, content_hash = None\<rparr>)
         (List.enumerate 0 (split_text sv (doc_content d)))"

text \<open>\<^verbatim>\<open>embed_texts\<close>: one \<^verbatim>\<open>_call_embed\<close> per text, with the default of three attempts.\<close>

fun embed_texts :: "'e services \<Rightarrow> string list \<Rightarrow> 'e state \<Rightarrow> 'e state \<times> (py_error + 'e list)" where
  "embed_texts sv [] st = (st, Inr [])"
| "embed_texts sv (t # ts) st =
     (case call_embed (\<lambda>txt a. embed_post sv (posts st + a) txt) t default_retries of
        (waits, n, r) \<Rightarrow>
          (let st1 = st\<lparr>posts := posts st + n, sleeps := sleeps st @ waits\<rparr>
           in case r of
                Inl e \<Rightarrow> (st1, Inl e)
              | Inr emb \<Rightarrow>
                  (case embed_texts sv ts st1 of
                     (st2, Inl e) \<Rightarrow> (st2, Inl e)
                   | (st2, Inr embs) \<Rightarrow> (st2, Inr (emb # embs)))))"

text \<open>Phase 1 and 2 of \<^verbatim>\<open>run_pipeline\<close>: the documents of the discovered URLs.\<close>

definition extract_documents :: "'e services \<Rightarrow> string set \<Rightarrow> string set \<Rightarrow> document list" where
  "extract_documents sv pages pdfs =
     List.map_filter (extract_text_from_html sv) (iter_order sv pages)
     @ List.map_filter (extract_text_from_pdf sv) (iter_order sv pdfs)"

text \<open>Phase 3: the chunks of all documents, in one list.\<close>

definition chunk_documents :: "'e services \<Rightarrow> document list \<Rightarrow> chunk list" where
  "chunk_documents sv documents = concat (map (chunk_document sv) documents)"

text \<open>Phase 4: the sets that decide what is written.\<close>

definition new_urls :: "chunk list \<Rightarrow> hash_dict \<Rightarrow> string set" where
  "new_urls all_chunks existing_hashes = fresh_urls all_chunks - dict_keys existing_hashes"

definition urls_to_process :: "string set \<Rightarrow> string set \<Rightarrow> string set" where
  "urls_to_process changed_urls new = changed_urls \<union> new"

text \<open>The cleanup loop: \<^verbatim>\<open>for url in changed_urls: delete_chunks_for_url(url)\<close>.\<close>

fun delete_all :: "string list \<Rightarrow> 'e state \<Rightarrow> 'e state" where
  "delete_all [] st = st"
| "delete_all (u # us) st = delete_all us (delete_chunks_for_url u st)"

text \<open>Phase 5: the loop that embeds the chunks one at a time.\<close>

fun embed_all :: "'e services \<Rightarrow> string list \<Rightarrow> 'e state \<Rightarrow> 'e state \<times> (py_error + 'e list)" where
  "embed_all sv [] st = (st, Inr [])"
| "embed_all sv (t # ts) st =
     (case embed_texts sv [t] st of
        (st1, Inl e) \<Rightarrow> (st1, Inl e)
      | (st1, Inr emb) \<Rightarrow>
          (case embed_all sv ts st1 of
             (st2, Inl e) \<Rightarrow> (st2, Inl e)
           | (st2, Inr embs) \<Rightarrow> (st2, Inr (emb @ embs))))"

text \<open>\<^verbatim>\<open>itertools.groupby\<close> by url: maximal runs of neighbours with the same url.\<close>

function groupby_url :: "(chunk \<times> 'e) list \<Rightarrow> (string \<times> (chunk \<times> 'e) list) list" where
  "groupby_url [] = []"
| "groupby_url (x # xs) =
     (url (fst x), x # takeWhile (\<lambda>y. url (fst y) = url (fst x)) xs)
       # groupby_url (dropWhile (\<lambda>y. url (fst y) = url (fst x)) xs)"
  by pat_completeness auto
termination
  by (relation "measure length") (auto simp: length_dropWhile_le less_Suc_eq_le)

text \<open>Phase 6: one \<^verbatim>\<open>upsert_chunks\<close> per group.\<close>

fun upsert_groups ::
  "string \<Rightarrow> (string \<times> (chunk \<times> 'e) list) list \<Rightarrow> 'e state \<Rightarrow> 'e state \<times> (py_error + unit)" where
  "upsert_groups now [] st = (st, Inr ())"
| "upsert_groups now ((u, group_list) # groups) st =
     (case upsert_chunks now (map fst group_list) (map snd group_list) st of
        (st1, Inl e) \<Rightarrow> (st1, Inl e)
      | (st1, Inr _) \<Rightarrow> upsert_groups now groups st1)"

text \<open>
  How a run ends when no exception reaches the caller: nothing was extracted, nothing
  has changed, or the table was synchronised (with the counts of the final report:
  documents, chunks uploaded, new URLs, updated URLs).
\<close>

datatype run_result = NoDocuments | NoChanges | Completed nat nat nat nat

text \<open>Phases 4 to 6, from the chunks of phase 3.\<close>

definition sync_chunks ::
  "'e services \<Rightarrow> nat \<Rightarrow> chunk list \<Rightarrow> 'e state \<Rightarrow> 'e state \<times> (py_error + run_result)" where
  "sync_chunks sv n_documents chunks st =
     (let all_chunks = compute_hashes_for_chunks (sha256_hex sv) chunks
      in case get_existing_hashes st of
           (st1, existing_hashes) \<Rightarrow>
             (case find_changed_urls all_chunks existing_hashes of
                Inl e \<Rightarrow> (st1, Inl e)
              | Inr changed_urls \<Rightarrow>
                  (let new = new_urls all_chunks existing_hashes;
                       to_process = urls_to_process changed_urls new
                   in if to_process = {} then (st1, Inr NoChanges)
                      else
                        (let chunks_to_upload = filter (\<lambda>c. url c \<in> to_process) all_chunks;
                             st2 = delete_all (iter_order sv changed_urls) st1
                         in case embed_all sv (map content chunks_to_upload) st2 of
                              (st3, Inl e) \<Rightarrow> (st3, Inl e)
                            | (st3, Inr all_embeddings) \<Rightarrow>
                                (let chunks_with_emb =
                                       sort_key (\<lambda>x. url (fst x))
                                         (zip chunks_to_upload all_embeddings)
                                 in case upsert_groups (utc_now sv)
                                           (groupby_url chunks_with_emb) st3 of
                                      (st4, Inl e) \<Rightarrow> (st4, Inl e)
                                    | (st4, Inr _) \<Rightarrow>
                                        (st4, Inr (Completed n_documents
                                                     (length chunks_to_upload)
                                                     (card new) (card changed_urls))))))))"

text \<open>
  \<^verbatim>\<open>run_pipeline\<close>. The outer \<open>option\<close> is \<open>None\<close> when the crawl does not end; otherwise
  the run gives the state it leaves and its result or the exception that ended it.
\<close>

definition run_pipeline ::
  "web \<Rightarrow> 'e services \<Rightarrow> config \<Rightarrow> 'e state \<Rightarrow> ('e state \<times> (py_error + run_result)) option" where
  "run_pipeline w sv cfg st =
     (case validate cfg of
        Inl e \<Rightarrow> Some (st, Inl e)
      | Inr _ \<Rightarrow>
          (case crawl w cfg None of
             None \<Rightarrow> None
           | Some (Inl e) \<Rightarrow> Some (st, Inl e)
           | Some (Inr (pages, pdfs)) \<Rightarrow>
               (let documents = extract_documents sv pages pdfs
                in if documents = [] then Some (st, Inr NoDocuments)
                   else Some (sync_chunks sv (length documents)
                                (chunk_documents sv documents) st))))"

text \<open>The fresh chunks of a run that discovered the given URLs, as phase 4 sees them.\<close>

definition pipeline_chunks :: "'e services \<Rightarrow> string set \<Rightarrow> string set \<Rightarrow> chunk list" where
  "pipeline_chunks sv pages pdfs =
     compute_hashes_for_chunks (sha256_hex sv)
       (chunk_documents sv (extract_documents sv pages pdfs))"

text \<open>A \<^verbatim>\<open>for\<close> loop over a finite set visits exactly the elements of the set.\<close>

definition iterates_sets :: "'e services \<Rightarrow> bool" where
  "iterates_sets sv = (\<forall>S. finite S \<longrightarrow> set (iter_order sv S) = S)"

section \<open>Concrete inputs\<close>

text \<open>Small inputs on which the theorems below are instantiated.\<close>

definition ex_chunk :: "string \<Rightarrow> nat \<Rightarrow> string \<Rightarrow> string option \<Rightarrow> chunk" where
  "ex_chunk u i txt h =
     \<lparr>url = u, title = ''t'', type = ''html'', chunk_index = i, content = txt, content_hash = h\<rparr>"

definition ex_digest :: "string \<Rightarrow> string" where
  "ex_digest s = ''h:'' @ s"

definition ex_fresh :: "chunk list" where
  "ex_fresh = [ex_chunk ''A'' 0 ''x'' (Some ''h1''), ex_chunk ''A'' 1 ''y'' (Some ''h3'')]"

definition ex_prior :: hash_dict where
  "ex_prior = [(''A'', {''h1'', ''h2''})]"

text \<open>An Edge Function that answers every POST with status 503.\<close>

definition ex_post_503 :: "string \<Rightarrow> nat \<Rightarrow> nat post_result" where
  "ex_post_503 txt a = PostResponse 503 (Inl (KeyError ''embedding''))"

text \<open>
  A small web for the examples, on ASCII strings. \<open>ascii_lower\<close> and \<open>ascii_strip\<close> are
  what \<^verbatim>\<open>str.lower\<close> and \<^verbatim>\<open>str.strip\<close> do on ASCII strings. The URLs have the shape
  \<^verbatim>\<open>scheme://authority/path\<close>: the authority runs from the two slashes to the next
  slash, question mark or hash, and \<^verbatim>\<open>urlparse\<close> raises \<^verbatim>\<open>ValueError\<close> when it has
  one square bracket without the other; the extension is the last dotted suffix of the
  last path segment; every link is an absolute URL, which \<^verbatim>\<open>urljoin\<close> returns.
\<close>

definition lower_char :: "char \<Rightarrow> char" where
  "lower_char c =
     (if CHR ''A'' \<le> c \<and> c \<le> CHR ''Z'' then char_of (of_char c + (32::nat)) else c)"

definition ascii_lower :: "string \<Rightarrow> string" where
  "ascii_lower s = map lower_char s"

definition is_space :: "char \<Rightarrow> bool" where
  "is_space c = (of_char c \<in> {9, 10, 11, 12, 13, 28, 29, 30, 31, 32 :: nat})"

definition ascii_strip :: "string \<Rightarrow> string" where
  "ascii_strip s = rev (dropWhile is_space (rev (dropWhile is_space s)))"

fun after_scheme :: "string \<Rightarrow> string option" where
  "after_scheme [] = None"
| "after_scheme (c # cs) =
     (if take 3 (c # cs) = ''://'' then Some (drop 3 (c # cs)) else after_scheme cs)"

definition ex_authority :: "string \<Rightarrow> string" where
  "ex_authority u =
     (case after_scheme u of None \<Rightarrow> [] | Some r \<Rightarrow> takeWhile (\<lambda>c. c \<notin> set ''/?#'') r)"

definition bad_brackets :: "string \<Rightarrow> bool" where
  "bad_brackets u =
     ((CHR ''['' \<in> set (ex_authority u)) \<noteq> (CHR '']'' \<in> set (ex_authority u)))"

definition ex_netloc :: "string \<Rightarrow> py_error + string" where
  "ex_netloc u =
     (if bad_brackets u then Inl (ValueError ''Invalid IPv6 URL'') else Inr (ex_authority u))"

definition ex_path_ext :: "string \<Rightarrow> py_error + string" where
  "ex_path_ext u =
     (if bad_brackets u then Inl (ValueError ''Invalid IPv6 URL'')
      else
        (case after_scheme u of
           None \<Rightarrow> Inr []
         | Some r \<Rightarrow>
             (let path = takeWhile (\<lambda>c. c \<notin> set ''?#'') (dropWhile (\<lambda>c. c \<notin> set ''/?#'') r);
                  seg = rev (takeWhile (\<lambda>c. c \<noteq> CHR ''/'') (rev path))
              in if CHR ''.'' \<in> set seg
                 then Inr (CHR ''.'' # rev (takeWhile (\<lambda>c. c \<noteq> CHR ''.'') (rev seg)))
                 else Inr [])))"

definition ex_urljoin :: "string \<Rightarrow> string \<Rightarrow> py_error + string" where
  "ex_urljoin base href =
     (if bad_brackets base \<or> bad_brackets href then Inl (ValueError ''Invalid IPv6 URL'')
      else Inr href)"

definition ex_config :: config where
  "ex_config = \<lparr>SUPABASE_URL = Some ''https://db.example'', SUPABASE_SERVICE_KEY = Some ''k'',
                 SUPABASE_ANON_KEY = Some ''a'', TARGET_DOMAIN = ''https://www.ycce.edu'',
                 MAX_PAGES = 2, MAX_PDFS = 2\<rparr>"

text \<open>A site whose \<^verbatim>\<open>sitemap.xml\<close> exists and is not well-formed XML.\<close>

definition ex_web_broken_sitemap :: web where
  "ex_web_broken_sitemap =
     \<lparr>str_lower = ascii_lower, str_strip = ascii_strip,
      url_netloc = ex_netloc, url_path_ext = ex_path_ext, urljoin = ex_urljoin,
      http_get = (\<lambda>u. GetFailed),
      sitemap_file = Some (Inl (ParseError ''not well-formed''))\<rparr>"

text \<open>
  Collaborators for the examples: every page has the text \<open>hello world\<close>, no PDF can be
  read, a text is one chunk, the digest is a tag before the text, and the Edge Function
  answers every POST with the vector \<open>7\<close>.
\<close>

definition ex_services :: "nat services" where
  "ex_services =
     \<lparr>extract_text_from_html =
        (\<lambda>u. Some \<lparr>doc_url = u, doc_title = ''t'', doc_content = ''hello world'',
                    doc_type = ''html''\<rparr>),
      extract_text_from_pdf = (\<lambda>u. None),
      split_text = (\<lambda>s. [s]),
      sha256_hex = ex_digest,
      embed_post = (\<lambda>n txt. PostResponse 200 (Inr 7)),
      utc_now = ''2024-01-01T00:00:00+00:00'',
      iter_order = sorted_list_of_set\<rparr>"

definition ex_state_empty :: "nat state" where
  "ex_state_empty = \<lparr>db_rows = [], db_log = [], posts = 0, sleeps = []\<rparr>"

text \<open>A store with a list object at reference 0 that holds the dict 1 twice and the dict 2.\<close>

definition ex_store :: py_store where
  "ex_store =
     \<lparr>dict_at = (\<lambda>r. ex_chunk ''A'' r ''hello'' None),
      list_at = (\<lambda>l. if l = 0 then [1, 2, 1] else [])\<rparr>"

text \<open>One fresh chunk of a URL that the table has never seen.\<close>

definition ex_fresh_B :: "chunk list" where
  "ex_fresh_B = [ex_chunk ''B'' 0 ''x'' (Some ''h1'')]"

text \<open>
  A sitemap with four page-type entries, a PDF and an image, read with a page cap of 2.
\<close>

definition ex_url_elem :: "string \<Rightarrow> xml" where
  "ex_url_elem u = Element (ns_tag ''url'') None [Element (ns_tag ''loc'') (Some u) []]"

definition ex_sitemap_root :: xml where
  "ex_sitemap_root =
     Element (ns_tag ''urlset'') None
       [ex_url_elem ''https://example.org/a'',
        ex_url_elem '' https://example.org/b '',
        ex_url_elem ''https://example.org/c.PDF'',
        ex_url_elem ''https://example.org/logo.png'',
        ex_url_elem ''https://example.org/d'',
        ex_url_elem ''https://example.org/e'']"

definition ex_web_sitemap :: web where
  "ex_web_sitemap =
     \<lparr>str_lower = ascii_lower, str_strip = ascii_strip,
      url_netloc = ex_netloc, url_path_ext = ex_path_ext, urljoin = ex_urljoin,
      http_get = (\<lambda>u. GetFailed),
      sitemap_file = Some (Inr ex_sitemap_root)\<rparr>"

text \<open>
  A site without a sitemap. Its front page links to a page under the \<open>www\<close> name of the
  same host, to a PDF, to another site, to a mail address and to a PDF on the host
  \<open>example.www.org\<close>.
\<close>

definition ex_http_get :: "string \<Rightarrow> http_result" where
  "ex_http_get u =
     (if u = ''https://example.org''
      then GetResponse ''text/html; charset=utf-8'' True
             [''https://www.example.org/about/'', ''https://example.org/files/Report.PDF'',
              ''https://other.org/x'', ''mailto:office@example.org'',
              ''https://example.www.org/leak.pdf'']
      else if u = ''https://www.example.org/about''
      then GetResponse ''text/html'' True [''https://example.org/#top'']
      else GetFailed)"

definition ex_web_bfs :: web where
  "ex_web_bfs =
     \<lparr>str_lower = ascii_lower, str_strip = ascii_strip,
      url_netloc = ex_netloc, url_path_ext = ex_path_ext, urljoin = ex_urljoin,
      http_get = ex_http_get, sitemap_file = None\<rparr>"

text \<open>
  A table that holds an outdated chunk of \<^verbatim>\<open>https://example.org/a\<close> and a chunk of a
  URL that is no longer part of the site.
\<close>

definition ex_row :: "string \<Rightarrow> string \<Rightarrow> string \<Rightarrow> nat row" where
  "ex_row u txt h =
     \<lparr>row_url = u, row_chunk_index = 0, row_content = txt, row_content_hash = h,
      row_embedding = 7,
      row_metadata = \<lparr>md_title = ''t'', md_type = ''html'',
                       md_updated_at = ''2024-01-01T00:00:00+00:00''\<rparr>\<rparr>"

definition ex_state_stale :: "nat state" where
  "ex_state_stale =
     \<lparr>db_rows = [ex_row ''https://example.org/a'' ''old text'' ''h:old text'',
                 ex_row ''https://example.org/gone'' ''bye'' ''h:bye''],
      db_log = [], posts = 0, sleeps = []\<rparr>"

text \<open>The table after a run on the site of \<open>ex_web_sitemap\<close> from \<open>ex_state_stale\<close>.\<close>

definition ex_state_synced :: "nat state" where
  "ex_state_synced =
     \<lparr>db_rows = [ex_row ''https://example.org/gone'' ''bye'' ''h:bye'',
                 ex_row ''https://example.org/a'' ''hello world'' ''h:hello world'',
                 ex_row ''https://example.org/b'' ''hello world'' ''h:hello world''],
      db_log = [], posts = 0, sleeps = []\<rparr>"



text \<open>A sitemap with a location on which \<^verbatim>\<open>urlparse\<close> raises.\<close>

definition ex_web_sitemap_bad_loc :: web where
  "ex_web_sitemap_bad_loc =
     \<lparr>str_lower = ascii_lower, str_strip = ascii_strip,
      url_netloc = ex_netloc, url_path_ext = ex_path_ext, urljoin = ex_urljoin,
      http_get = (\<lambda>u. GetFailed),
      sitemap_file =
        Some (Inr (Element (ns_tag ''urlset'') None
                     [ex_url_elem ''https://example.org/a'',
                      ex_url_elem ''http://[bad'',
                      ex_url_elem ''https://example.org/b'']))\<rparr>"

text \<open>A site without a sitemap whose front page has a link on which \<^verbatim>\<open>urljoin\<close> raises.\<close>

definition ex_web_bfs_bad_link :: web where
  "ex_web_bfs_bad_link =
     \<lparr>str_lower = ascii_lower, str_strip = ascii_strip,
      url_netloc = ex_netloc, url_path_ext = ex_path_ext, urljoin = ex_urljoin,
      http_get = (\<lambda>u. GetResponse ''text/html'' True
                         [''https://example.org/about'', ''http://[bad'']),
      sitemap_file = None\<rparr>"

section \<open>Change detection\<close>

lemma dict_get_set_setdefault_add:
  "dict_get_set (setdefault_add k v d) u =
     (if u = k then insert v (dict_get_set d k) else dict_get_set d u)"
  by (simp add: dict_get_set_def setdefault_add_def update_conv')

lemma keys_setdefault_add:
  "fst ` set (setdefault_add k v d) = insert k (fst ` set d)"
  by (simp add: setdefault_add_def dom_update)

lemma distinct_setdefault_add:
  "distinct (map fst d) \<Longrightarrow> distinct (map fst (setdefault_add k v d))"
  by (simp add: setdefault_add_def distinct_update)

lemma fresh_fingerprints_Nil: "fresh_fingerprints [] u = {}"
  by (simp add: fresh_fingerprints_def List.map_filter_def)

lemma fresh_fingerprints_Cons:
  "fresh_fingerprints (c # cs) u =
     (if url c = u then (case content_hash c of None \<Rightarrow> {} | Some h \<Rightarrow> {h}) else {})
       \<union> fresh_fingerprints cs u"
  by (auto simp: fresh_fingerprints_def List.map_filter_def split: option.splits)

lemma group_by_url_spec:
  assumes "all_hashed cs"
  shows "\<exists>d'. group_by_url cs d = Inr d'
           \<and> (\<forall>u. dict_get_set d' u = dict_get_set d u \<union> fresh_fingerprints cs u)
           \<and> fst ` set d' = fst ` set d \<union> fresh_urls cs
           \<and> (distinct (map fst d) \<longrightarrow> distinct (map fst d'))"
  using assms
proof (induction cs arbitrary: d)
  case Nil
  then show ?case by (simp add: fresh_fingerprints_Nil fresh_urls_def)
next
  case (Cons c cs)
  from Cons.prems obtain h where h: "content_hash c = Some h" and rest: "all_hashed cs"
    by (auto simp: all_hashed_def)
  let ?d = "setdefault_add (url c) h d"
  from Cons.IH [OF rest, of ?d] obtain d' where
    g: "group_by_url cs ?d = Inr d'" and
    l: "\<forall>u. dict_get_set d' u = dict_get_set ?d u \<union> fresh_fingerprints cs u" and
    k: "fst ` set d' = fst ` set ?d \<union> fresh_urls cs" and
    dd: "distinct (map fst ?d) \<longrightarrow> distinct (map fst d')"
    by blast
  have "group_by_url (c # cs) d = Inr d'"
    using g h by simp
  moreover have "\<forall>u. dict_get_set d' u = dict_get_set d u \<union> fresh_fingerprints (c # cs) u"
    using l h by (auto simp: dict_get_set_setdefault_add fresh_fingerprints_Cons)
  moreover have "fst ` set d' = fst ` set d \<union> fresh_urls (c # cs)"
    using k by (auto simp: keys_setdefault_add fresh_urls_def)
  moreover have "distinct (map fst d) \<longrightarrow> distinct (map fst d')"
    using dd by (simp add: distinct_setdefault_add)
  ultimately show ?case by blast
qed

lemma collect_changed_spec:
  "collect_changed items existing acc =
     acc \<union> {u. \<exists>s. (u, s) \<in> set items \<and> s \<noteq> dict_get_set existing u}"
  by (induction items existing acc rule: collect_changed.induct) (auto simp: Let_def)

lemma fresh_fingerprints_nonempty:
  assumes "all_hashed cs" and "u \<in> fresh_urls cs"
  shows "fresh_fingerprints cs u \<noteq> {}"
  using assms
  by (induction cs) (auto simp: all_hashed_def fresh_urls_def fresh_fingerprints_Cons)

lemma find_changed_urls_spec:
  assumes "all_hashed cs"
  shows "find_changed_urls cs existing =
           Inr {u \<in> fresh_urls cs. fresh_fingerprints cs u \<noteq> dict_get_set existing u}"
proof -
  from group_by_url_spec [OF assms, of "[]"] obtain d' where
    g: "group_by_url cs [] = Inr d'" and
    l: "\<forall>u. dict_get_set d' u = fresh_fingerprints cs u" and
    k: "fst ` set d' = fresh_urls cs" and
    dd: "distinct (map fst d')"
    by (auto simp: dict_get_set_def)
  have items: "(u, s) \<in> set d' \<longleftrightarrow> u \<in> fresh_urls cs \<and> s = fresh_fingerprints cs u" for u s
  proof
    assume m: "(u, s) \<in> set d'"
    then have "map_of d' u = Some s" using dd by simp
    then have "dict_get_set d' u = s" by (simp add: dict_get_set_def)
    moreover have "u \<in> fst ` set d'" using m by force
    ultimately show "u \<in> fresh_urls cs \<and> s = fresh_fingerprints cs u"
      using l k by auto
  next
    assume a: "u \<in> fresh_urls cs \<and> s = fresh_fingerprints cs u"
    then have "u \<in> fst ` set d'" using k by simp
    then obtain s' where m: "(u, s') \<in> set d'" by auto
    then have "map_of d' u = Some s'" using dd by simp
    then have "dict_get_set d' u = s'" by (simp add: dict_get_set_def)
    then show "(u, s) \<in> set d'" using m l a by auto
  qed
  have "collect_changed d' existing {} =
          {u \<in> fresh_urls cs. fresh_fingerprints cs u \<noteq> dict_get_set existing u}"
    unfolding collect_changed_spec using items by auto
  then show ?thesis
    by (simp add: find_changed_urls_def g)
qed

text \<open>
  C1. For every list of fresh chunks that all carry a url and a content fingerprint, and
  every prior dict from url to fingerprint set, \<open>find_changed_urls\<close> returns a set that
  contains a URL \<open>u\<close> exactly when \<open>u\<close> is the url of some fresh chunk and the set of
  fingerprints of the fresh chunks of \<open>u\<close> differs, as a set, from the prior set of \<open>u\<close>
  (the empty set when \<open>u\<close> is not a key of the prior dict).
\<close>

theorem find_changed_urls_iff:
  assumes "all_hashed new_chunks"
  shows "\<exists>changed. find_changed_urls new_chunks existing_hashes = Inr changed
           \<and> (\<forall>u. u \<in> changed \<longleftrightarrow>
                  u \<in> fresh_urls new_chunks
                  \<and> fresh_fingerprints new_chunks u
                      \<noteq> (case map_of existing_hashes u of None \<Rightarrow> {} | Some s \<Rightarrow> s))"
  using find_changed_urls_spec [OF assms, of existing_hashes]
  by (simp add: dict_get_set_def)

theorem find_changed_urls_iff_witness:
  "all_hashed ex_fresh \<and> find_changed_urls ex_fresh ex_prior = Inr {''A''}"
proof -
  have h: "all_hashed ex_fresh"
    by code_simp
  obtain changed where
    r: "find_changed_urls ex_fresh ex_prior = Inr changed" and
    m: "\<And>u. u \<in> changed \<longleftrightarrow>
          u \<in> fresh_urls ex_fresh
          \<and> fresh_fingerprints ex_fresh u
              \<noteq> (case map_of ex_prior u of None \<Rightarrow> {} | Some s \<Rightarrow> s)"
    using find_changed_urls_iff [OF h, of ex_prior] by blast
  have fu: "fresh_urls ex_fresh = {''A''}"
    by code_simp
  have ne: "fresh_fingerprints ex_fresh ''A''
              \<noteq> (case map_of ex_prior ''A'' of None \<Rightarrow> {} | Some s \<Rightarrow> s)"
    by code_simp
  have "changed = {''A''}"
  proof (rule set_eqI)
    fix u
    show "u \<in> changed \<longleftrightarrow> u \<in> {''A''}"
      unfolding m fu using ne by blast
  qed
  then show ?thesis
    using h r by simp
qed

section \<open>Hashing the chunks\<close>

lemma set_content_hash_idem:
  "set_content_hash H (set_content_hash H c) = set_content_hash H c"
  by (simp add: set_content_hash_def)

lemma hash_loop_at:
  "hash_loop H rs dicts r =
     (if r \<in> set rs then set_content_hash H (dicts r) else dicts r)"
  by (induction rs arbitrary: dicts) (auto simp: set_content_hash_idem)

lemma compute_hashes_for_chunks_map:
  "compute_hashes_for_chunks H cs = map (set_content_hash H) cs"
  by (induction cs) simp_all

lemma all_hashed_compute_hashes: "all_hashed (compute_hashes_for_chunks H cs)"
  by (induction cs) (simp_all add: all_hashed_def set_content_hash_def)

text \<open>
  C9. \<open>compute_hashes_for_chunks\<close> returns the reference of the list it was given; the
  list has the same elements in the same order; every dict of the list gets the field
  \<open>content_hash\<close>, the digest of its \<open>content\<close>, and keeps its \<open>url\<close>, \<open>title\<close>, \<open>type\<close>,
  \<open>chunk_index\<close> and \<open>content\<close>; no other object changes. Read as values, the chunks of
  the list afterwards are the chunks before with that one field set.
\<close>

theorem compute_hashes_for_chunks_frame:
  assumes "compute_hashes_for_chunks_in_place H st l = (st', l')"
  shows "l' = l
         \<and> list_at st' = list_at st
         \<and> length (read_list st' l') = length (read_list st l)
         \<and> (\<forall>r. r \<in> set (list_at st l) \<longrightarrow>
                dict_at st' r
                  = (dict_at st r)\<lparr>content_hash := Some (compute_hash H (content (dict_at st r)))\<rparr>
                \<and> content_hash (dict_at st' r) = Some (compute_hash H (content (dict_at st r)))
                \<and> url (dict_at st' r) = url (dict_at st r)
                \<and> title (dict_at st' r) = title (dict_at st r)
                \<and> type (dict_at st' r) = type (dict_at st r)
                \<and> chunk_index (dict_at st' r) = chunk_index (dict_at st r)
                \<and> content (dict_at st' r) = content (dict_at st r))
         \<and> (\<forall>r. r \<notin> set (list_at st l) \<longrightarrow> dict_at st' r = dict_at st r)
         \<and> read_list st' l' = compute_hashes_for_chunks H (read_list st l)"
proof -
  from assms have l: "l' = l"
    and st': "st' = st\<lparr>dict_at := hash_loop H (list_at st l) (dict_at st)\<rparr>"
    by (auto simp: compute_hashes_for_chunks_in_place_def)
  have lists: "list_at st' = list_at st"
    by (simp add: st')
  have at: "dict_at st' r =
              (if r \<in> set (list_at st l) then set_content_hash H (dict_at st r) else dict_at st r)"
    for r
    by (simp add: st' hash_loop_at)
  have rd: "read_list st' l' = compute_hashes_for_chunks H (read_list st l)"
    by (simp add: read_list_def l lists at compute_hashes_for_chunks_map)
  have len: "length (read_list st' l') = length (read_list st l)"
    by (simp add: rd compute_hashes_for_chunks_map)
  show ?thesis
    using l lists len rd by (simp add: at set_content_hash_def)
qed

theorem compute_hashes_for_chunks_frame_witness:
  "snd (compute_hashes_for_chunks_in_place ex_digest ex_store 0) = 0
   \<and> content_hash (dict_at (fst (compute_hashes_for_chunks_in_place ex_digest ex_store 0)) 1)
       = Some ''h:hello''
   \<and> url (dict_at (fst (compute_hashes_for_chunks_in_place ex_digest ex_store 0)) 1) = ''A''
   \<and> dict_at (fst (compute_hashes_for_chunks_in_place ex_digest ex_store 0)) 5
       = dict_at ex_store 5"
proof -
  obtain st' l' where h: "compute_hashes_for_chunks_in_place ex_digest ex_store 0 = (st', l')"
    by (cases "compute_hashes_for_chunks_in_place ex_digest ex_store 0") blast
  have lst: "list_at ex_store 0 = [1, 2, 1]"
    by (simp add: ex_store_def)
  have c: "content (dict_at ex_store 1) = ''hello''" "url (dict_at ex_store 1) = ''A''"
    by (simp_all add: ex_store_def ex_chunk_def)
  from compute_hashes_for_chunks_frame [OF h]
  have l: "l' = 0"
    and a: "\<forall>r. r \<in> set (list_at ex_store 0) \<longrightarrow>
             content_hash (dict_at st' r)
               = Some (compute_hash ex_digest (content (dict_at ex_store r)))
             \<and> url (dict_at st' r) = url (dict_at ex_store r)"
    and b: "\<forall>r. r \<notin> set (list_at ex_store 0) \<longrightarrow> dict_at st' r = dict_at ex_store r"
    by blast+
  have "content_hash (dict_at st' 1) = Some ''h:hello''" and "url (dict_at st' 1) = ''A''"
    using a [rule_format, of 1] lst c
    by (simp_all add: compute_hash_def encode_utf8_def ex_digest_def)
  moreover have "dict_at st' 5 = dict_at ex_store 5"
    using b [rule_format, of 5] lst by simp
  ultimately show ?thesis
    using h l by simp
qed

section \<open>Retries of the embedding call\<close>

declare call_embed_from.simps [simp del]

lemma call_embed_from_transient:
  assumes "transient (post a)" and "int a < retries"
  shows "call_embed_from post retries a waits =
           call_embed_from post retries (a + 1) (waits @ [2 ^ a * 2])"
proof -
  from assms(1) obtain status body where
    p: "post a = PostResponse status body" and s: "status = 546 \<or> status \<ge> 500"
    by (cases "post a") (simp_all add: transient_def)
  show ?thesis
    by (subst call_embed_from.simps) (use p s assms(2) in simp)
qed

lemma call_embed_from_exhausted:
  assumes "\<not> int a < retries"
  shows "call_embed_from post retries a waits =
           (waits, a, Inl (RuntimeError ''Failed to embed after retries''))"
  by (subst call_embed_from.simps) (use assms in simp)

text \<open>
  C8. When the Edge Function answers each of the three attempts with a server-side
  transient status (546 or any status from 500 up), \<open>_call_embed\<close> with its default of
  three attempts sends exactly three POSTs, sleeps 2, 4 and 8 seconds after them (each
  wait twice the one before), and then raises \<^verbatim>\<open>RuntimeError\<close> instead of returning a
  vector.
\<close>

theorem call_embed_transient_raises:
  assumes "transient (post txt 0)" and "transient (post txt 1)" and "transient (post txt 2)"
  shows "call_embed post txt default_retries =
           ([2, 4, 8], 3, Inl (RuntimeError ''Failed to embed after retries''))"
proof -
  have a1: "Suc 0 = 1" and a2: "Suc 1 = 2" and a3: "Suc 2 = 3"
    by simp_all
  have "call_embed_from (post txt) 3 0 [] = call_embed_from (post txt) 3 1 [2]"
    using call_embed_from_transient [of "post txt" 0 3 "[]"] assms(1) by simp
  also have "\<dots> = call_embed_from (post txt) 3 2 [2, 4]"
    using call_embed_from_transient [of "post txt" 1 3 "[2]"] assms(2)
    by (simp del: One_nat_def add: a2)
  also have "\<dots> = call_embed_from (post txt) 3 3 [2, 4, 8]"
    using call_embed_from_transient [of "post txt" 2 3 "[2, 4]"] assms(3)
    by (simp add: a3)
  also have "\<dots> = ([2, 4, 8], 3, Inl (RuntimeError ''Failed to embed after retries''))"
    using call_embed_from_exhausted [of 3 3 "post txt" "[2, 4, 8]"] by simp
  finally show ?thesis
    by (simp add: call_embed_def default_retries_def)
qed

theorem call_embed_transient_raises_witness:
  "transient (ex_post_503 ''hello'' 0) \<and> transient (ex_post_503 ''hello'' 1)
   \<and> transient (ex_post_503 ''hello'' 2)
   \<and> call_embed ex_post_503 ''hello'' default_retries =
       ([2, 4, 8], 3, Inl (RuntimeError ''Failed to embed after retries''))"
proof -
  have t: "transient (ex_post_503 ''hello'' a)" for a
    by (simp add: transient_def ex_post_503_def)
  show ?thesis
    using t call_embed_transient_raises [of ex_post_503 "''hello''"] by simp
qed

section \<open>New and changed URLs\<close>

lemma dict_get_set_absent:
  "u \<notin> dict_keys existing \<Longrightarrow> dict_get_set existing u = {}"
  by (simp add: dict_get_set_def dict_keys_def map_of_eq_None_iff [THEN iffD2])

lemma new_urls_subset_changed:
  assumes "all_hashed cs" and "find_changed_urls cs existing = Inr changed"
  shows "new_urls cs existing \<subseteq> changed"
proof
  fix u
  assume "u \<in> new_urls cs existing"
  then have f: "u \<in> fresh_urls cs" and a: "u \<notin> dict_keys existing"
    by (simp_all add: new_urls_def)
  have "fresh_fingerprints cs u \<noteq> dict_get_set existing u"
    using fresh_fingerprints_nonempty [OF assms(1) f] dict_get_set_absent [OF a] by simp
  then show "u \<in> changed"
    using assms f by (auto simp: find_changed_urls_spec)
qed

text \<open>
  C3, as the claim states it, fails: with an empty prior dict the fresh URL \<open>B\<close> is new
  and \<open>find_changed_urls\<close> returns it in the changed set.
\<close>

theorem new_url_is_changed_counterexample:
  "''B'' \<in> new_urls ex_fresh_B [] \<and> find_changed_urls ex_fresh_B [] = Inr {''B''}"
  by code_simp

text \<open>
  C3, amended. Every fresh URL that is not a key of the prior dict is in the set of new
  URLs that the coordinator computes, and it is also a member of the changed set that
  \<open>find_changed_urls\<close> returns: its fresh fingerprints, which are not empty, are
  compared with the empty set.
\<close>

theorem new_url_is_new_and_changed:
  assumes "all_hashed new_chunks"
    and "u \<in> fresh_urls new_chunks"
    and "u \<notin> dict_keys existing_hashes"
  shows "u \<in> new_urls new_chunks existing_hashes
         \<and> (\<exists>changed. find_changed_urls new_chunks existing_hashes = Inr changed
                \<and> u \<in> changed)"
proof -
  have n: "u \<in> new_urls new_chunks existing_hashes"
    using assms(2,3) by (simp add: new_urls_def)
  obtain changed where c: "find_changed_urls new_chunks existing_hashes = Inr changed"
    using find_changed_urls_spec [OF assms(1)] by blast
  then have "u \<in> changed"
    using new_urls_subset_changed [OF assms(1) c] n by blast
  then show ?thesis
    using n c by blast
qed

theorem new_url_is_new_and_changed_witness:
  "all_hashed ex_fresh_B \<and> ''B'' \<in> fresh_urls ex_fresh_B \<and> ''B'' \<notin> dict_keys []
   \<and> ''B'' \<in> new_urls ex_fresh_B []
   \<and> (\<exists>changed. find_changed_urls ex_fresh_B [] = Inr changed \<and> ''B'' \<in> changed)"
proof -
  have h1: "all_hashed ex_fresh_B"
    by code_simp
  have h2: "''B'' \<in> fresh_urls ex_fresh_B"
    by code_simp
  have h3: "''B'' \<notin> dict_keys []"
    by (simp add: dict_keys_def)
  show ?thesis
    using h1 h2 h3 new_url_is_new_and_changed [OF h1 h2 h3] by blast
qed

section \<open>Discovery: the sitemap strategy\<close>

text \<open>
  C7. When \<^verbatim>\<open>sitemap.xml\<close> exists and \<^verbatim>\<open>ET.parse\<close> raises on it, \<open>crawl\<close> ends with
  that exception, whatever the breadth-first crawl would have found, and a run of the
  pipeline with a valid configuration ends with the same exception and leaves the
  state as it was.
\<close>

theorem crawl_sitemap_error_propagates:
  assumes "sitemap_file w = Some (Inl e)"
  shows "crawl w cfg seed_url = Some (Inl e)
         \<and> (validate cfg = Inr () \<longrightarrow> run_pipeline w sv cfg st = Some (st, Inl e))"
  using assms by (simp add: crawl_def load_sitemap_def run_pipeline_def)

theorem crawl_sitemap_error_propagates_witness:
  "sitemap_file ex_web_broken_sitemap = Some (Inl (ParseError ''not well-formed''))
   \<and> crawl ex_web_broken_sitemap ex_config None = Some (Inl (ParseError ''not well-formed''))
   \<and> validate ex_config = Inr ()
   \<and> run_pipeline ex_web_broken_sitemap ex_services ex_config ex_state_empty
       = Some (ex_state_empty, Inl (ParseError ''not well-formed''))"
proof -
  have h: "sitemap_file ex_web_broken_sitemap = Some (Inl (ParseError ''not well-formed''))"
    by (simp add: ex_web_broken_sitemap_def)
  have v: "validate ex_config = Inr ()"
    by (simp add: validate_def ex_config_def falsy_def)
  show ?thesis
    using h v
      crawl_sitemap_error_propagates [OF h, of ex_config None ex_services ex_state_empty]
    by simp
qed

lemma locations_Nil: "locations w [] = []"
  by (simp add: locations_def List.map_filter_def)

lemma locations_Cons:
  "locations w (e # es) =
     (case loc_of w e of None \<Rightarrow> locations w es | Some u \<Rightarrow> u # locations w es)"
  by (simp add: locations_def List.map_filter_def split: option.splits)

lemma sitemap_step_no_loc:
  assumes "loc_of w e = None"
  shows "sitemap_step w cfg e (P, D) = Inr (P, D)"
  using assms by (simp add: sitemap_step_def)

lemma sitemap_step_loc:
  assumes "loc_of w e = Some u" and "parses w u"
  shows "sitemap_step w cfg e (P, D) =
           Inr (if is_page_entry w u then add_capped (MAX_PAGES cfg) u P else P,
                if is_pdf_entry w u then add_capped (MAX_PDFS cfg) u D else D)"
  using assms
  by (auto simp: sitemap_step_def parses_def is_page_entry_def is_pdf_entry_def add_capped_def
                 Let_def split: sum.splits)

lemma sitemap_step_raises:
  assumes "loc_of w e = Some u" and "\<not> parses w u"
  shows "\<exists>err. sitemap_step w cfg e (P, D) = Inl err"
  using assms
  by (auto simp: sitemap_step_def parses_def Let_def split: sum.splits)


text \<open>When \<^verbatim>\<open>urlparse\<close> raises on some location, \<^verbatim>\<open>_load_sitemap\<close> raises.\<close>

lemma sitemap_loop_raises:
  assumes "\<not> all_parse w es"
  shows "\<exists>err. sitemap_loop w cfg es (P, D) = Inl err"
  using assms
proof (induction es arbitrary: P D)
  case Nil
  then show ?case by (simp add: all_parse_def locations_Nil)
next
  case (Cons e es)
  show ?case
  proof (cases "loc_of w e")
    case None
    then have "\<not> all_parse w es"
      using Cons.prems by (simp add: all_parse_def locations_Cons)
    then show ?thesis
      using Cons.IH [of P D] None by (simp add: sitemap_step_no_loc)
  next
    case (Some u)
    show ?thesis
    proof (cases "parses w u")
      case True
      then have "\<not> all_parse w es"
        using Cons.prems Some by (simp add: all_parse_def locations_Cons)
      then show ?thesis
        using Cons.IH sitemap_step_loc [OF Some True] by simp
    next
      case False
      then show ?thesis
        using sitemap_step_raises [OF Some False, of cfg P D] by auto
    qed
  qed
qed




text \<open>A location on which \<^verbatim>\<open>urlparse\<close> raises ends the crawl with that exception.\<close>

lemma crawl_sitemap_bad_location:
  "crawl ex_web_sitemap_bad_loc ex_config None = Some (Inl (ValueError ''Invalid IPv6 URL''))"
  by code_simp

section \<open>Discovery: the breadth-first strategy\<close>

text \<open>
  Partial correctness of the loop: a property that holds on entry and that every
  iteration keeps holds of the sets that the loop returns.
\<close>

lemma bfs_loop_rule:
  assumes "bfs_loop w cfg b s = Some (Inr r)"
    and "I s"
    and "\<And>s s'. I s \<Longrightarrow> bfs_step w cfg b s = Continue s' \<Longrightarrow> I s'"
    and "\<And>s r. I s \<Longrightarrow> bfs_step w cfg b s = Finished r \<Longrightarrow> Q r"
  shows "Q r"
proof -
  have "w = w \<and> cfg = cfg \<and> b = b \<longrightarrow> I s
          \<longrightarrow> (\<forall>r'. (Inr r :: py_error + string set \<times> string set) = Inr r' \<longrightarrow> Q r')"
  proof (rule bfs_loop.raw_induct
      [where P = "\<lambda>w' cfg' b' s res.
                    w' = w \<and> cfg' = cfg \<and> b' = b \<longrightarrow> I s \<longrightarrow> (\<forall>r. res = Inr r \<longrightarrow> Q r)",
        OF _ assms(1)])
    fix loop w' cfg' b' s res
    assume IH: "\<And>w'' cfg'' b'' s res. loop w'' cfg'' b'' s = Some res
                  \<Longrightarrow> w'' = w \<and> cfg'' = cfg \<and> b'' = b \<longrightarrow> I s
                        \<longrightarrow> (\<forall>r. res = Inr r \<longrightarrow> Q r)"
      and body: "(case bfs_step w' cfg' b' s of
                    Continue s' \<Rightarrow> loop w' cfg' b' s'
                  | Finished result \<Rightarrow> Some (Inr result)
                  | Raised e \<Rightarrow> Some (Inl e)) = Some res"
    show "w' = w \<and> cfg' = cfg \<and> b' = b \<longrightarrow> I s \<longrightarrow> (\<forall>r. res = Inr r \<longrightarrow> Q r)"
    proof (intro impI allI)
      fix r
      assume eq: "w' = w \<and> cfg' = cfg \<and> b' = b" and i: "I s" and res: "res = Inr r"
      show "Q r"
      proof (cases "bfs_step w cfg b s")
        case (Continue s')
        then have "loop w cfg b s' = Some res" using body eq by simp
        moreover have "I s'" using assms(3) [OF i Continue] .
        ultimately show ?thesis using IH res by blast
      next
        case (Finished r')
        then have "r' = r" using body eq res by simp
        then show ?thesis using assms(4) [OF i Finished] by simp
      next
        case (Raised e)
        then show ?thesis using body eq res by simp
      qed
    qed
  qed
  then show ?thesis using assms(2) by blast
qed

lemma bfs_step_classified:
  assumes "classified w (page_urls s) (pdf_urls s)"
  shows "bfs_step w cfg b s = Continue s' \<Longrightarrow> classified w (page_urls s') (pdf_urls s')"
    and "bfs_step w cfg b s = Finished r \<Longrightarrow> classified w (fst r) (snd r)"
  using assms
  by (auto simp: bfs_step_def classified_def is_pdf_url_def Let_def
           split: list.splits if_splits http_result.splits sum.splits)

lemma in_scopeI:
  "url_netloc w u = Inr netloc \<Longrightarrow> get_base_domain w netloc = b \<Longrightarrow> in_scope w b u"
  by (simp add: in_scope_def)

lemma bfs_step_scoped:
  assumes "scoped w b (page_urls s) (pdf_urls s)"
  shows "bfs_step w cfg b s = Continue s' \<Longrightarrow> scoped w b (page_urls s') (pdf_urls s')"
    and "bfs_step w cfg b s = Finished r \<Longrightarrow> scoped w b (fst r) (snd r)"
  using assms
  by (auto simp: bfs_step_def scoped_def Let_def intro: in_scopeI
           split: list.splits if_splits http_result.splits sum.splits)

text \<open>Termination: an iteration adds a page while the cap allows, or shortens the queue.\<close>

lemma bfs_step_decreases:
  assumes "bfs_inv s" and "bfs_step w cfg b s = Continue s'"
  shows "bfs_inv s'
         \<and> (s', s) \<in> measures [\<lambda>s. nat (MAX_PAGES cfg - int (card (page_urls s))),
                                \<lambda>s. length (queue s)]"
proof (cases "queue s")
  case Nil
  then show ?thesis using assms(2) by (simp add: bfs_step_def)
next
  case (Cons raw rest)
  have fin: "finite (page_urls s)" and sub: "page_urls s \<subseteq> visited s"
    using assms(1) by (simp_all add: bfs_inv_def)
  have grow: "card (insert u (page_urls s)) = Suc (card (page_urls s))"
    if "u \<notin> visited s" for u
  proof -
    have "u \<notin> page_urls s" using that sub by blast
    then show ?thesis using fin by simp
  qed
  show ?thesis
    using assms(2) Cons fin sub
    by (auto simp: bfs_step_def bfs_inv_def Let_def grow
             split: if_splits http_result.splits sum.splits)
qed

lemma bfs_loop_terminates:
  assumes "bfs_inv s"
  shows "\<exists>r. bfs_loop w cfg b s = Some r"
  using assms
proof (induction s rule: wf_induct_rule
    [OF wf_measures [of "[\<lambda>s. nat (MAX_PAGES cfg - int (card (page_urls s))),
                           \<lambda>s. length (queue s)]"]])
  case (1 s)
  show ?case
  proof (cases "bfs_step w cfg b s")
    case (Continue s')
    from bfs_step_decreases [OF "1.prems" Continue]
    have "\<exists>r. bfs_loop w cfg b s' = Some r"
      using "1.IH" by blast
    then show ?thesis
      by (subst bfs_loop.simps) (simp add: Continue)
  next
    case (Finished r)
    then show ?thesis
      by (subst bfs_loop.simps) simp
  next
    case (Raised e)
    then show ?thesis
      by (subst bfs_loop.simps) simp
  qed
qed

lemma bfs_crawl_terminates: "\<exists>r. bfs_crawl w cfg seed_url = Some r"
proof -
  have "\<exists>r. bfs_loop w cfg b (bfs_init seed) = Some r" for b seed
    by (rule bfs_loop_terminates) (simp add: bfs_inv_def bfs_init_def)
  then show ?thesis
    by (simp add: bfs_crawl_def Let_def split: sum.splits)
qed

lemma crawl_terminates: "\<exists>r. crawl w cfg seed_url = Some r"
proof (cases "sitemap_file w")
  case None
  then show ?thesis
    using bfs_crawl_terminates [of w cfg seed_url] by (simp add: crawl_def)
next
  case (Some parsed)
  then show ?thesis by (simp add: crawl_def)
qed

lemma bfs_crawl_loop:
  assumes "bfs_crawl w cfg seed_url = Some (Inr (pages, pdfs))"
  shows "\<exists>b seed. bfs_loop w cfg b (bfs_init seed) = Some (Inr (pages, pdfs))"
  using assms
  by (auto simp: bfs_crawl_def Let_def split: sum.splits)

lemma bfs_crawl_classified:
  assumes "bfs_crawl w cfg seed_url = Some (Inr (pages, pdfs))"
  shows "classified w pages pdfs"
proof -
  obtain b seed where l: "bfs_loop w cfg b (bfs_init seed) = Some (Inr (pages, pdfs))"
    using bfs_crawl_loop [OF assms] by blast
  have i: "classified w (page_urls (bfs_init seed)) (pdf_urls (bfs_init seed))"
    by (simp add: classified_def bfs_init_def)
  have "classified w (fst (pages, pdfs)) (snd (pages, pdfs))"
  proof (rule bfs_loop_rule
      [where I = "\<lambda>s. classified w (page_urls s) (pdf_urls s)"
         and Q = "\<lambda>r. classified w (fst r) (snd r)", OF l i])
    fix s s'
    assume "classified w (page_urls s) (pdf_urls s)" and "bfs_step w cfg b s = Continue s'"
    then show "classified w (page_urls s') (pdf_urls s')"
      by (rule bfs_step_classified(1))
  next
    fix s r
    assume "classified w (page_urls s) (pdf_urls s)" and "bfs_step w cfg b s = Finished r"
    then show "classified w (fst r) (snd r)"
      by (rule bfs_step_classified(2))
  qed
  then show ?thesis by simp
qed

text \<open>
  Every URL that the breadth-first crawl returns has the base domain of the seed, as
  \<open>get_base_domain\<close> computes it.
\<close>

lemma bfs_loop_scoped:
  assumes "bfs_loop w cfg b (bfs_init seed) = Some (Inr (pages, pdfs))"
  shows "scoped w b pages pdfs"
proof -
  have i: "scoped w b (page_urls (bfs_init seed)) (pdf_urls (bfs_init seed))"
    by (simp add: scoped_def bfs_init_def)
  have "scoped w b (fst (pages, pdfs)) (snd (pages, pdfs))"
  proof (rule bfs_loop_rule
      [where I = "\<lambda>s. scoped w b (page_urls s) (pdf_urls s)"
         and Q = "\<lambda>r. scoped w b (fst r) (snd r)", OF assms i])
    fix s s'
    assume "scoped w b (page_urls s) (pdf_urls s)" and "bfs_step w cfg b s = Continue s'"
    then show "scoped w b (page_urls s') (pdf_urls s')"
      by (rule bfs_step_scoped(1))
  next
    fix s r
    assume "scoped w b (page_urls s) (pdf_urls s)" and "bfs_step w cfg b s = Finished r"
    then show "scoped w b (fst r) (snd r)"
      by (rule bfs_step_scoped(2))
  qed
  then show ?thesis by simp
qed

lemma sitemap_step_classified:
  assumes "classified w P D" and "sitemap_step w cfg e (P, D) = Inr (P', D')"
  shows "classified w P' D'"
  using assms
  by (auto simp: sitemap_step_def classified_def is_pdf_url_def Let_def
           split: option.splits if_splits sum.splits)

lemma sitemap_loop_classified:
  assumes "classified w P D" and "sitemap_loop w cfg es (P, D) = Inr (P', D')"
  shows "classified w P' D'"
  using assms
proof (induction es arbitrary: P D)
  case Nil
  then show ?case by simp
next
  case (Cons e es)
  from Cons.prems(2) obtain P1 D1 where
    s: "sitemap_step w cfg e (P, D) = Inr (P1, D1)" and
    l: "sitemap_loop w cfg es (P1, D1) = Inr (P', D')"
    by (auto split: sum.splits)
  have "classified w P1 D1"
    using sitemap_step_classified [OF Cons.prems(1) s] .
  then show ?case
    using Cons.IH [of P1 D1] l by simp
qed

lemma crawl_classified:
  assumes "crawl w cfg seed_url = Some (Inr (pages, pdfs))"
  shows "classified w pages pdfs"
proof (cases "sitemap_file w")
  case None
  then have "bfs_crawl w cfg seed_url = Some (Inr (pages, pdfs))"
    using assms by (simp add: crawl_def)
  then show ?thesis by (rule bfs_crawl_classified)
next
  case (Some parsed)
  then obtain root where
    "sitemap_loop w cfg (findall root ''url'') ({}, {}) = Inr (pages, pdfs)"
    using assms by (auto simp: crawl_def load_sitemap_def split: sum.splits)
  moreover have "classified w {} {}" by (simp add: classified_def)
  ultimately show ?thesis
    using sitemap_loop_classified by blast
qed

text \<open>
  C10. Both strategies end, with two sets or with an exception, and in the two sets
  they return every URL of the PDF set ends in \<^verbatim>\<open>.pdf\<close> when lowered and no URL of the
  page set does, so the two sets have no URL in common.
\<close>

theorem crawl_result_sets_disjoint:
  shows "(\<exists>r. crawl w cfg seed_url = Some r)
         \<and> (\<forall>pages pdfs. crawl w cfg seed_url = Some (Inr (pages, pdfs)) \<longrightarrow>
                (\<forall>u \<in> pdfs. endswith (str_lower w u) ''.pdf'')
                \<and> (\<forall>u \<in> pages. \<not> endswith (str_lower w u) ''.pdf'')
                \<and> pages \<inter> pdfs = {})"
proof -
  have "(\<forall>u \<in> pdfs. endswith (str_lower w u) ''.pdf'')
        \<and> (\<forall>u \<in> pages. \<not> endswith (str_lower w u) ''.pdf'')
        \<and> pages \<inter> pdfs = {}"
    if "crawl w cfg seed_url = Some (Inr (pages, pdfs))" for pages pdfs
    using crawl_classified [OF that] by (auto simp: classified_def is_pdf_url_def)
  then show ?thesis
    using crawl_terminates [of w cfg seed_url] by blast
qed

theorem crawl_result_sets_disjoint_witness:
  "crawl ex_web_bfs ex_config (Some ''https://example.org/'')
     = Some (Inr ({''https://example.org'', ''https://www.example.org/about''},
                  {''https://example.org/files/Report.PDF'', ''https://example.www.org/leak.pdf''}))
   \<and> {''https://example.org'', ''https://www.example.org/about''}
       \<inter> {''https://example.org/files/Report.PDF'', ''https://example.www.org/leak.pdf''} = {}
   \<and> endswith (str_lower ex_web_bfs ''https://example.org/files/Report.PDF'') ''.pdf''"
proof -
  let ?P = "{''https://example.org'', ''https://www.example.org/about''}"
  let ?D = "{''https://example.org/files/Report.PDF'', ''https://example.www.org/leak.pdf''}"
  have c: "crawl ex_web_bfs ex_config (Some ''https://example.org/'') = Some (Inr (?P, ?D))"
    by code_simp
  from crawl_result_sets_disjoint [of ex_web_bfs ex_config "Some ''https://example.org/''"] c
  have "(\<forall>u \<in> ?D. endswith (str_lower ex_web_bfs u) ''.pdf'') \<and> ?P \<inter> ?D = {}"
    by blast
  then show ?thesis
    using c by blast
qed

text \<open>
  C5 at a concrete site. The crawl is seeded at \<^verbatim>\<open>https://example.org/\<close>; the front
  page links to a PDF on the host \<open>example.www.org\<close>. \<open>get_base_domain\<close> removes every
  occurrence of \<^verbatim>\<open>www.\<close>, not only a leading one, so that host has the base domain of
  the seed, and the crawl returns the PDF.
\<close>

theorem bfs_crawl_admits_other_authority:
  "url_netloc ex_web_bfs ''https://example.org/'' = Inr ''example.org''
   \<and> url_netloc ex_web_bfs ''https://example.www.org/leak.pdf'' = Inr ''example.www.org''
   \<and> get_base_domain ex_web_bfs ''example.www.org'' = get_base_domain ex_web_bfs ''example.org''
   \<and> bfs_crawl ex_web_bfs ex_config (Some ''https://example.org/'')
       = Some (Inr ({''https://example.org'', ''https://www.example.org/about''},
                    {''https://example.org/files/Report.PDF'',
                     ''https://example.www.org/leak.pdf''}))"
  by code_simp

text \<open>A link on which \<^verbatim>\<open>urljoin\<close> raises ends the crawl with that exception.\<close>

lemma bfs_crawl_bad_link:
  "bfs_crawl ex_web_bfs_bad_link ex_config (Some ''https://example.org/'')
     = Some (Inl (ValueError ''Invalid IPv6 URL''))"
  by code_simp

section \<open>Synchronising the table\<close>

subsection \<open>Fingerprints of chunk lists and of the table\<close>

lemma fresh_fingerprints_iff:
  "h \<in> fresh_fingerprints cs u \<longleftrightarrow> (\<exists>c \<in> set cs. url c = u \<and> content_hash c = Some h)"
  by (induction cs) (auto simp: fresh_fingerprints_Nil fresh_fingerprints_Cons split: option.splits)

lemma fresh_fingerprints_cong_set:
  "set cs = set cs' \<Longrightarrow> fresh_fingerprints cs u = fresh_fingerprints cs' u"
  by (auto simp: fresh_fingerprints_iff)

lemma fresh_fingerprints_append:
  "fresh_fingerprints (cs @ cs') u = fresh_fingerprints cs u \<union> fresh_fingerprints cs' u"
  by (auto simp: fresh_fingerprints_iff)

lemma fresh_fingerprints_filter:
  "u \<in> S \<Longrightarrow> fresh_fingerprints (filter (\<lambda>c. url c \<in> S) cs) u = fresh_fingerprints cs u"
  by (auto simp: fresh_fingerprints_iff)

lemma stored_fingerprints_rows:
  "db_rows st' = db_rows st \<Longrightarrow> stored_fingerprints st' u = stored_fingerprints st u"
  by (simp add: stored_fingerprints_def)

lemma hashes_loop_get:
  "dict_get_set (hashes_loop rs d) u =
     dict_get_set d u \<union> set (map row_content_hash (filter (\<lambda>r. row_url r = u) rs))"
  by (induction rs arbitrary: d) (auto simp: dict_get_set_setdefault_add)

lemma hashes_loop_keys:
  "fst ` set (hashes_loop rs d) = fst ` set d \<union> row_url ` set rs"
  by (induction rs arbitrary: d) (auto simp: keys_setdefault_add)

lemma dict_get_set_Nil: "dict_get_set [] u = {}"
  by (simp add: dict_get_set_def)

lemma get_existing_hashes_spec:
  assumes "get_existing_hashes st = (st1, existing)"
  shows "dict_get_set existing u = stored_fingerprints st u"
    and "dict_keys existing = row_url ` set (db_rows st)"
    and "db_rows st1 = db_rows st"
    and "db_log st1 = db_log st @ [SelectAll]"
    and "posts st1 = posts st"
proof -
  from assms have e: "existing = hashes_loop (db_rows st) []"
    and s: "st1 = st\<lparr>db_log := db_log st @ [SelectAll]\<rparr>"
    by (simp_all add: get_existing_hashes_def)
  show "dict_get_set existing u = stored_fingerprints st u"
    by (simp add: e hashes_loop_get dict_get_set_Nil stored_fingerprints_def)
  have "fst ` set existing = row_url ` set (db_rows st)"
    unfolding e hashes_loop_keys by simp
  then show "dict_keys existing = row_url ` set (db_rows st)"
    by (simp add: dict_keys_def)
  show "db_rows st1 = db_rows st" "db_log st1 = db_log st @ [SelectAll]" "posts st1 = posts st"
    by (simp_all add: s)
qed

subsection \<open>Deleting\<close>

lemma delete_all_rows:
  "db_rows (delete_all us st) = filter (\<lambda>r. row_url r \<notin> set us) (db_rows st)"
  by (induction us arbitrary: st) (simp_all add: delete_chunks_for_url_def conj_commute)

lemma delete_all_log:
  "db_log (delete_all us st) = db_log st @ map DeleteWhereUrl us"
  by (induction us arbitrary: st) (auto simp: delete_chunks_for_url_def)

lemma stored_fingerprints_delete_all:
  "stored_fingerprints (delete_all us st) u =
     (if u \<in> set us then {} else stored_fingerprints st u)"
  by (auto simp: stored_fingerprints_def delete_all_rows)

subsection \<open>Embedding\<close>

lemma embed_texts_one:
  assumes "embed_texts sv [t] st = (st', r)"
  shows "db_rows st' = db_rows st \<and> db_log st' = db_log st
         \<and> (\<forall>es. r = Inr es \<longrightarrow> length es = 1)"
  using assms
  by (auto simp: Let_def split: prod.splits sum.splits)

lemma embed_all_spec:
  assumes "embed_all sv ts st = (st', r)"
  shows "db_rows st' = db_rows st \<and> db_log st' = db_log st
         \<and> (\<forall>es. r = Inr es \<longrightarrow> length es = length ts)"
  using assms
proof (induction ts arbitrary: st st' r)
  case Nil
  then show ?case by auto
next
  case (Cons t ts)
  obtain st1 r1 where e: "embed_texts sv [t] st = (st1, r1)"
    by (cases "embed_texts sv [t] st") blast
  note one = embed_texts_one [OF e]
  show ?case
  proof (cases r1)
    case (Inl err)
    then show ?thesis
      using Cons.prems e one by auto
  next
    case (Inr emb)
    obtain st2 r2 where a: "embed_all sv ts st1 = (st2, r2)"
      by (cases "embed_all sv ts st1") blast
    note rest = Cons.IH [OF a]
    show ?thesis
      using Cons.prems e a Inr one rest
      by (cases r2) auto
  qed
qed

subsection \<open>Inserting\<close>

declare insert_batches.simps [simp del]

lemma insert_batches_Nil: "insert_batches [] st = st"
  by (subst insert_batches.simps) simp

lemma insert_batches_rows: "db_rows (insert_batches rs st) = db_rows st @ rs"
proof (induction rs st rule: insert_batches.induct)
  case (1 rs st)
  show ?case
  proof (cases "rs = []")
    case True
    then show ?thesis by (simp add: insert_batches_Nil)
  next
    case False
    then show ?thesis
      using "1.IH" [OF False] by (subst insert_batches.simps) simp
  qed
qed

lemma insert_batches_log:
  "\<exists>ops. db_log (insert_batches rs st) = db_log st @ ops \<and> list_all is_insert ops"
proof (induction rs st rule: insert_batches.induct)
  case (1 rs st)
  show ?case
  proof (cases "rs = []")
    case True
    then show ?thesis by (simp add: insert_batches_Nil)
  next
    case False
    from "1.IH" [OF False] obtain ops where
      "db_log (insert_batches (drop BATCH_SIZE rs)
                 (st\<lparr>db_rows := db_rows st @ take BATCH_SIZE rs,
                     db_log := db_log st @ [InsertBatch (take BATCH_SIZE rs)]\<rparr>))
         = (db_log st @ [InsertBatch (take BATCH_SIZE rs)]) @ ops"
      and "list_all is_insert ops"
      by auto
    then have "db_log (insert_batches rs st) = db_log st @ (InsertBatch (take BATCH_SIZE rs) # ops)
               \<and> list_all is_insert (InsertBatch (take BATCH_SIZE rs) # ops)"
      using False by (subst insert_batches.simps) (simp add: is_insert_def)
    then show ?thesis by blast
  qed
qed

lemma make_rows_fingerprints:
  assumes "make_rows now xs = Inr rs"
  shows "set (map row_content_hash (filter (\<lambda>r. row_url r = u) rs))
           = fresh_fingerprints (map fst xs) u"
  using assms
proof (induction xs arbitrary: rs)
  case Nil
  then show ?case by (simp add: fresh_fingerprints_Nil)
next
  case (Cons x xs)
  obtain c e where x: "x = (c, e)" by (cases x)
  from Cons.prems x obtain h rs' where
    h: "content_hash c = Some h" and r: "make_rows now xs = Inr rs'" and
    rs: "rs = \<lparr>row_url = url c, row_chunk_index = chunk_index c, row_content = content c,
                row_content_hash = h, row_embedding = e,
                row_metadata = \<lparr>md_title = title c, md_type = type c,
                                 md_updated_at = now\<rparr>\<rparr> # rs'"
    by (auto split: option.splits sum.splits)
  show ?case
    using Cons.IH [OF r] h x by (auto simp: rs fresh_fingerprints_Cons)
qed

lemma upsert_chunks_spec:
  assumes "upsert_chunks now cs es st = (st', Inr x)"
  shows "stored_fingerprints st' u
           = stored_fingerprints st u \<union> fresh_fingerprints (map fst (zip cs es)) u"
    and "\<exists>ops. db_log st' = db_log st @ ops \<and> list_all is_insert ops"
proof -
  from assms obtain rs where
    m: "make_rows now (zip cs es) = Inr rs" and st': "st' = insert_batches rs st"
    by (auto simp: upsert_chunks_def split: sum.splits)
  show "stored_fingerprints st' u
          = stored_fingerprints st u \<union> fresh_fingerprints (map fst (zip cs es)) u"
    using make_rows_fingerprints [OF m, of u]
    by (simp add: stored_fingerprints_def st' insert_batches_rows)
  show "\<exists>ops. db_log st' = db_log st @ ops \<and> list_all is_insert ops"
    unfolding st' by (rule insert_batches_log)
qed

lemma upsert_groups_spec:
  assumes "upsert_groups now gs st = (st', Inr x)"
  shows "stored_fingerprints st' u
           = stored_fingerprints st u \<union> fresh_fingerprints (map fst (concat (map snd gs))) u
         \<and> (\<exists>ops. db_log st' = db_log st @ ops \<and> list_all is_insert ops)"
  using assms
proof (induction gs arbitrary: st)
  case Nil
  then show ?case by (simp add: fresh_fingerprints_Nil)
next
  case (Cons g gs)
  obtain k group_list where g: "g = (k, group_list)" by (cases g)
  from Cons.prems g obtain st1 y where
    u1: "upsert_chunks now (map fst group_list) (map snd group_list) st = (st1, Inr y)" and
    u2: "upsert_groups now gs st1 = (st', Inr x)"
    by (auto split: prod.splits sum.splits)
  have z: "zip (map fst group_list) (map snd group_list) = group_list"
    by (simp add: zip_map_fst_snd)
  from upsert_chunks_spec [OF u1] z obtain ops1 where
    f1: "stored_fingerprints st1 u
           = stored_fingerprints st u \<union> fresh_fingerprints (map fst group_list) u" and
    l1: "db_log st1 = db_log st @ ops1" "list_all is_insert ops1"
    by auto
  from Cons.IH [OF u2] obtain ops2 where
    f2: "stored_fingerprints st' u
           = stored_fingerprints st1 u
             \<union> fresh_fingerprints (map fst (concat (map snd gs))) u" and
    l2: "db_log st' = db_log st1 @ ops2" "list_all is_insert ops2"
    by auto
  have "db_log st' = db_log st @ (ops1 @ ops2) \<and> list_all is_insert (ops1 @ ops2)"
    using l1 l2 by simp
  then have lg: "\<exists>ops. db_log st' = db_log st @ ops \<and> list_all is_insert ops"
    by blast
  have "fresh_fingerprints (map fst (concat (map snd (g # gs)))) u
          = fresh_fingerprints (map fst group_list) u
            \<union> fresh_fingerprints (map fst (concat (map snd gs))) u"
    by (simp add: g fresh_fingerprints_append)
  then have "stored_fingerprints st' u
          = stored_fingerprints st u
            \<union> fresh_fingerprints (map fst (concat (map snd (g # gs)))) u"
    using f1 f2 by (simp add: Un_assoc)
  then show ?case
    using lg by blast
qed

lemma concat_groupby_url: "concat (map snd (groupby_url xs)) = xs"
  by (induction xs rule: groupby_url.induct) simp_all

lemma set_fst_zip_sorted:
  assumes "length es = length cs"
  shows "set (map fst (sort_key f (zip cs es))) = set cs"
proof -
  have "set (map fst (sort_key f (zip cs es))) = fst ` set (zip cs es)"
    by simp
  also have "\<dots> = set (map fst (zip cs es))"
    by simp
  also have "\<dots> = set cs"
    using assms by simp
  finally show ?thesis .
qed

subsection \<open>Phases 4 to 6\<close>

lemma finite_fresh_urls: "finite (fresh_urls cs)"
  by (simp add: fresh_urls_def)

lemma changed_subset_fresh:
  assumes "all_hashed cs" and "find_changed_urls cs existing = Inr changed"
  shows "changed \<subseteq> fresh_urls cs"
  using assms by (auto simp: find_changed_urls_spec)

text \<open>
  What a run of phases 4 to 6 that ends without an exception leaves: the fresh
  fingerprints for every URL of the processing set, the old rows for every other URL,
  and a log in which the select comes first, then the deletes, then the inserts.
\<close>

lemma sync_chunks_spec:
  assumes run: "sync_chunks sv n chunks st = (st', Inr result)"
    and order: "iterates_sets sv"
    and all: "all_chunks = compute_hashes_for_chunks (sha256_hex sv) chunks"
    and ex: "existing = snd (get_existing_hashes st)"
    and fc: "find_changed_urls all_chunks existing = Inr changed"
    and tp: "to_process = urls_to_process changed (new_urls all_chunks existing)"
  shows "(\<forall>u. stored_fingerprints st' u =
              (if u \<in> to_process then fresh_fingerprints all_chunks u
               else stored_fingerprints st u))
         \<and> (\<exists>ins. db_log st' = db_log st @ [SelectAll]
                       @ map DeleteWhereUrl (if to_process = {} then []
                                             else iter_order sv changed)
                       @ ins
                  \<and> list_all is_insert ins)
         \<and> (to_process = {} \<longrightarrow> result = NoChanges \<and> db_rows st' = db_rows st
                                  \<and> posts st' = posts st)"
proof -
  let ?ac = "compute_hashes_for_chunks (sha256_hex sv) chunks"
  let ?tp = "urls_to_process changed (new_urls ?ac existing)"
  let ?ctu = "filter (\<lambda>c. url c \<in> ?tp) ?ac"
  have fc': "find_changed_urls ?ac existing = Inr changed"
    using fc all by simp
  have tp': "to_process = ?tp"
    using tp all by simp
  obtain st1 where g: "get_existing_hashes st = (st1, existing)"
    using ex by (cases "get_existing_hashes st") simp
  note ge = get_existing_hashes_spec [OF g]
  have ah: "all_hashed ?ac"
    by (rule all_hashed_compute_hashes)
  have tpc: "?tp = changed"
    using new_urls_subset_changed [OF ah fc'] by (auto simp: urls_to_process_def)
  show ?thesis
  proof (cases "?tp = {}")
    case True
    then have "st' = st1" and res: "result = NoChanges"
      using run g fc' by (simp_all add: sync_chunks_def Let_def)
    then have rows: "db_rows st' = db_rows st" and lg: "db_log st' = db_log st @ [SelectAll]"
      and ps: "posts st' = posts st"
      using ge by simp_all
    have "\<forall>u. stored_fingerprints st' u = stored_fingerprints st u"
      using rows by (simp add: stored_fingerprints_def)
    then show ?thesis
      using True lg rows res ps tp' by simp
  next
    case False
    let ?st2 = "delete_all (iter_order sv changed) st1"
    obtain st3 r3 where em: "embed_all sv (map content ?ctu) ?st2 = (st3, r3)"
      by (cases "embed_all sv (map content ?ctu) ?st2") blast
    have body: "sync_chunks sv n chunks st =
                  (case r3 of
                     Inl e \<Rightarrow> (st3, Inl e)
                   | Inr all_embeddings \<Rightarrow>
                       (case upsert_groups (utc_now sv)
                               (groupby_url (sort_key (\<lambda>x. url (fst x))
                                  (zip ?ctu all_embeddings))) st3 of
                          (st4, Inl e) \<Rightarrow> (st4, Inl e)
                        | (st4, Inr _) \<Rightarrow>
                            (st4, Inr (Completed n (length ?ctu)
                                         (card (new_urls ?ac existing))
                                         (card changed)))))"
      using g fc' False em
      by (simp add: sync_chunks_def Let_def split: sum.splits)
    from run body obtain embs where r3: "r3 = Inr embs"
      by (cases r3) auto
    obtain st4 r4 where up: "upsert_groups (utc_now sv)
            (groupby_url (sort_key (\<lambda>x. url (fst x)) (zip ?ctu embs))) st3 = (st4, r4)"
      by (cases "upsert_groups (utc_now sv)
            (groupby_url (sort_key (\<lambda>x. url (fst x)) (zip ?ctu embs))) st3") blast
    from run body r3 up obtain x where r4: "r4 = Inr x" and st4: "st' = st4"
      by (cases r4) auto
    note es = embed_all_spec [OF em]
    have len: "length embs = length ?ctu"
      using es r3 by simp
    have fin: "finite changed"
      using changed_subset_fresh [OF ah fc'] finite_fresh_urls finite_subset by blast
    have it: "set (iter_order sv changed) = changed"
      using order fin by (simp add: iterates_sets_def)
    note ug = upsert_groups_spec [OF up [unfolded r4]]
    have stored: "stored_fingerprints st' u =
                    (if u \<in> ?tp then fresh_fingerprints ?ac u
                     else stored_fingerprints st u)" for u
    proof -
      have "stored_fingerprints st' u
              = stored_fingerprints st3 u
                \<union> fresh_fingerprints (map fst (sort_key (\<lambda>x. url (fst x)) (zip ?ctu embs))) u"
        using ug [of u] st4 by (simp add: concat_groupby_url)
      also have "fresh_fingerprints (map fst (sort_key (\<lambda>x. url (fst x)) (zip ?ctu embs))) u
                   = fresh_fingerprints ?ctu u"
        by (rule fresh_fingerprints_cong_set) (rule set_fst_zip_sorted [OF len])
      also have "stored_fingerprints st3 u = stored_fingerprints ?st2 u"
        using es by (simp add: stored_fingerprints_def)
      also have "stored_fingerprints ?st2 u
                   = (if u \<in> changed then {} else stored_fingerprints st u)"
        using stored_fingerprints_rows [OF ge(3), of u]
        by (simp add: stored_fingerprints_delete_all it)
      finally have eq: "stored_fingerprints st' u
              = (if u \<in> changed then {} else stored_fingerprints st u)
                \<union> fresh_fingerprints ?ctu u" .
      show ?thesis
      proof (cases "u \<in> ?tp")
        case True
        then have "fresh_fingerprints ?ctu u = fresh_fingerprints ?ac u"
          by (rule fresh_fingerprints_filter)
        then show ?thesis
          using eq True tpc by simp
      next
        case False
        then have "fresh_fingerprints ?ctu u = {}"
          by (auto simp: fresh_fingerprints_iff)
        then show ?thesis
          using eq False tpc by simp
      qed
    qed
    from ug [of "[]"] obtain ins where
      "db_log st4 = db_log st3 @ ins" and ins: "list_all is_insert ins"
      by blast
    then have "db_log st' = db_log st @ [SelectAll] @ map DeleteWhereUrl (iter_order sv changed) @ ins"
      using st4 es ge(4) by (simp add: delete_all_log)
    then show ?thesis
      using stored ins False tp' all by auto
  qed
qed

lemma pipeline_chunks_empty:
  assumes "extract_documents sv pages pdfs = []"
  shows "pipeline_chunks sv pages pdfs = []"
  using assms by (simp add: pipeline_chunks_def chunk_documents_def)

lemma all_hashed_pipeline_chunks: "all_hashed (pipeline_chunks sv pages pdfs)"
  unfolding pipeline_chunks_def by (rule all_hashed_compute_hashes)

lemma run_pipeline_cases:
  assumes "crawl w cfg None = Some (Inr (pages, pdfs))"
    and "run_pipeline w sv cfg st = Some (st', r)"
  shows "(\<exists>e. validate cfg = Inl e \<and> st' = st \<and> r = Inl e)
         \<or> (validate cfg = Inr () \<and> extract_documents sv pages pdfs = []
             \<and> st' = st \<and> r = Inr NoDocuments)
         \<or> (validate cfg = Inr () \<and> extract_documents sv pages pdfs \<noteq> []
             \<and> sync_chunks sv (length (extract_documents sv pages pdfs))
                  (chunk_documents sv (extract_documents sv pages pdfs)) st = (st', r))"
  using assms
  by (cases "validate cfg") (auto simp: run_pipeline_def Let_def split: if_splits)

subsection \<open>Replacement of the fingerprints of a URL\<close>

text \<open>
  C2. Take a run of the pipeline that ends without an exception, and a URL of its
  processing set (the changed URLs together with the new ones, computed from the fresh
  chunks of the run and from the table as the run found it). Then the fingerprints
  that the table holds for the URL after the run are exactly the fingerprints of the
  fresh chunks of the URL; and in the log of the run the select comes first, then one
  delete for each changed URL, then only inserts, so every delete precedes every
  insert. The \<^verbatim>\<open>for\<close> loops are assumed to visit every element of the sets they go
  through.
\<close>

theorem run_pipeline_replaces_fingerprints:
  assumes "iterates_sets sv"
    and "crawl w cfg None = Some (Inr (pages, pdfs))"
    and "run_pipeline w sv cfg st = Some (st', Inr result)"
    and "find_changed_urls (pipeline_chunks sv pages pdfs) (snd (get_existing_hashes st))
           = Inr changed"
    and "u \<in> urls_to_process changed
                (new_urls (pipeline_chunks sv pages pdfs) (snd (get_existing_hashes st)))"
  shows "stored_fingerprints st' u = fresh_fingerprints (pipeline_chunks sv pages pdfs) u
         \<and> (\<exists>ins. db_log st' = db_log st @ [SelectAll]
                       @ map DeleteWhereUrl (iter_order sv changed) @ ins
                  \<and> list_all is_insert ins)"
proof -
  let ?docs = "extract_documents sv pages pdfs"
  let ?ac = "pipeline_chunks sv pages pdfs"
  let ?ex = "snd (get_existing_hashes st)"
  let ?tp = "urls_to_process changed (new_urls ?ac ?ex)"
  have sub: "?tp \<subseteq> fresh_urls ?ac"
    using changed_subset_fresh [OF all_hashed_pipeline_chunks assms(4)]
    by (auto simp: urls_to_process_def new_urls_def)
  have "?docs \<noteq> []"
  proof
    assume "?docs = []"
    then have "fresh_urls ?ac = {}"
      by (simp add: pipeline_chunks_empty fresh_urls_def)
    then show False using sub assms(5) by blast
  qed
  then have run: "sync_chunks sv (length ?docs) (chunk_documents sv ?docs) st = (st', Inr result)"
    using run_pipeline_cases [OF assms(2,3)] by auto
  have all: "?ac = compute_hashes_for_chunks (sha256_hex sv) (chunk_documents sv ?docs)"
    by (simp add: pipeline_chunks_def)
  from sync_chunks_spec [OF run assms(1) all refl assms(4) refl]
  have s: "\<forall>v. stored_fingerprints st' v =
              (if v \<in> ?tp then fresh_fingerprints ?ac v else stored_fingerprints st v)"
    and l: "\<exists>ins. db_log st' = db_log st @ [SelectAll]
                       @ map DeleteWhereUrl (if ?tp = {} then [] else iter_order sv changed)
                       @ ins
                  \<and> list_all is_insert ins"
    by blast+
  have ne: "?tp \<noteq> {}"
    using assms(5) by blast
  show ?thesis
    using s l assms(5) ne by simp
qed

theorem run_pipeline_replaces_fingerprints_witness:
  "iterates_sets ex_services
   \<and> crawl ex_web_sitemap ex_config None
       = Some (Inr ({''https://example.org/a'', ''https://example.org/b''},
                    {''https://example.org/c.PDF''}))
   \<and> stored_fingerprints ex_state_stale ''https://example.org/a'' = {''h:old text''}
   \<and> (\<exists>st'. run_pipeline ex_web_sitemap ex_services ex_config ex_state_stale
                = Some (st', Inr (Completed 2 2 1 2))
            \<and> stored_fingerprints st' ''https://example.org/a'' = {''h:hello world''})"
proof -
  let ?P = "{''https://example.org/a'', ''https://example.org/b''}"
  let ?D = "{''https://example.org/c.PDF''}"
  let ?ac = "pipeline_chunks ex_services ?P ?D"
  let ?ex = "snd (get_existing_hashes ex_state_stale)"
  have h1: "iterates_sets ex_services"
    by (simp add: iterates_sets_def ex_services_def)
  have h2: "crawl ex_web_sitemap ex_config None = Some (Inr (?P, ?D))"
    by code_simp
  have "map_option snd (run_pipeline ex_web_sitemap ex_services ex_config ex_state_stale)
          = Some (Inr (Completed 2 2 1 2))"
    by code_simp
  then obtain st' where
    h3: "run_pipeline ex_web_sitemap ex_services ex_config ex_state_stale
           = Some (st', Inr (Completed 2 2 1 2))"
    by auto
  have h4: "find_changed_urls ?ac ?ex = Inr ?P"
    by code_simp
  have h5: "''https://example.org/a'' \<in> urls_to_process ?P (new_urls ?ac ?ex)"
    by (simp add: urls_to_process_def)
  have f: "fresh_fingerprints ?ac ''https://example.org/a'' = {''h:hello world''}"
    by code_simp
  have o: "stored_fingerprints ex_state_stale ''https://example.org/a'' = {''h:old text''}"
    by code_simp
  have "stored_fingerprints st' ''https://example.org/a'' = {''h:hello world''}"
    using run_pipeline_replaces_fingerprints [OF h1 h2 h3 h4 h5] f by simp
  then show ?thesis
    using h1 h2 h3 o by blast
qed

subsection \<open>A run that finds nothing changed\<close>

lemma sync_chunks_no_changes:
  assumes "find_changed_urls (compute_hashes_for_chunks (sha256_hex sv) chunks)
             (snd (get_existing_hashes st)) = Inr changed"
    and "urls_to_process changed
           (new_urls (compute_hashes_for_chunks (sha256_hex sv) chunks)
              (snd (get_existing_hashes st))) = {}"
  shows "sync_chunks sv n chunks st = (fst (get_existing_hashes st), Inr NoChanges)"
  using assms
  by (cases "get_existing_hashes st") (simp add: sync_chunks_def Let_def)

text \<open>
  C4. Let the configuration be valid and the crawl return, and let every fresh URL have
  in the table exactly the fingerprints of its fresh chunks (as the run before left
  them). Then the changed set and the new set are empty, so the processing set is
  empty, and the run ends without an exception, leaves the rows as they were, sends
  nothing to the Edge Function, and adds to the log neither a delete nor an insert.
\<close>

theorem run_pipeline_unchanged_is_noop:
  assumes "validate cfg = Inr ()"
    and "crawl w cfg None = Some (Inr (pages, pdfs))"
    and "\<forall>u \<in> fresh_urls (pipeline_chunks sv pages pdfs).
           fresh_fingerprints (pipeline_chunks sv pages pdfs) u = stored_fingerprints st u"
  shows "\<exists>changed st' result ops.
           find_changed_urls (pipeline_chunks sv pages pdfs) (snd (get_existing_hashes st))
             = Inr changed
           \<and> urls_to_process changed
                (new_urls (pipeline_chunks sv pages pdfs) (snd (get_existing_hashes st))) = {}
           \<and> run_pipeline w sv cfg st = Some (st', Inr result)
           \<and> db_rows st' = db_rows st
           \<and> posts st' = posts st
           \<and> db_log st' = db_log st @ ops
           \<and> filter is_delete ops = [] \<and> filter is_insert ops = []"
proof -
  let ?docs = "extract_documents sv pages pdfs"
  let ?ac = "pipeline_chunks sv pages pdfs"
  obtain st1 existing where g: "get_existing_hashes st = (st1, existing)"
    by (cases "get_existing_hashes st") blast
  note ge = get_existing_hashes_spec [OF g]
  have ah: "all_hashed ?ac"
    by (rule all_hashed_pipeline_chunks)
  have same: "fresh_fingerprints ?ac u = dict_get_set existing u" if "u \<in> fresh_urls ?ac" for u
    using assms(3) that ge(1) by simp
  have fc: "find_changed_urls ?ac existing = Inr {}"
    using same by (auto simp: find_changed_urls_spec [OF ah])
  have "u \<in> dict_keys existing" if "u \<in> fresh_urls ?ac" for u
  proof -
    have "stored_fingerprints st u \<noteq> {}"
      using fresh_fingerprints_nonempty [OF ah that] assms(3) that by simp
    then show ?thesis
      unfolding ge(2) by (auto simp: stored_fingerprints_def)
  qed
  then have nw: "new_urls ?ac existing = {}"
    by (auto simp: new_urls_def)
  have tp: "urls_to_process {} (new_urls ?ac existing) = {}"
    using nw by (simp add: urls_to_process_def)
  have "\<exists>st' result ops. run_pipeline w sv cfg st = Some (st', Inr result)
          \<and> db_rows st' = db_rows st \<and> posts st' = posts st
          \<and> db_log st' = db_log st @ ops
          \<and> filter is_delete ops = [] \<and> filter is_insert ops = []"
  proof (cases "?docs = []")
    case True
    then have "run_pipeline w sv cfg st = Some (st, Inr NoDocuments)"
      using assms(1,2) by (simp add: run_pipeline_def)
    then show ?thesis by simp
  next
    case False
    have "sync_chunks sv (length ?docs) (chunk_documents sv ?docs) st = (st1, Inr NoChanges)"
      using sync_chunks_no_changes [of sv "chunk_documents sv ?docs" st "{}" "length ?docs"]
        fc tp g
      by (simp add: pipeline_chunks_def)
    then have "run_pipeline w sv cfg st = Some (st1, Inr NoChanges)"
      using assms(1,2) False by (simp add: run_pipeline_def)
    moreover have "filter is_delete [SelectAll] = [] \<and> filter is_insert [SelectAll] = []"
      by (simp add: is_delete_def is_insert_def)
    ultimately show ?thesis
      using ge(3,4,5) by blast
  qed
  then show ?thesis
    using fc tp g by auto
qed

theorem run_pipeline_unchanged_is_noop_witness:
  "validate ex_config = Inr ()
   \<and> crawl ex_web_sitemap ex_config None
       = Some (Inr ({''https://example.org/a'', ''https://example.org/b''},
                    {''https://example.org/c.PDF''}))
   \<and> list_all
        (\<lambda>u. fresh_fingerprints
               (pipeline_chunks ex_services
                  {''https://example.org/a'', ''https://example.org/b''}
                  {''https://example.org/c.PDF''}) u
             = stored_fingerprints ex_state_synced u)
        [''https://example.org/a'', ''https://example.org/b'']
   \<and> (\<exists>st' result. run_pipeline ex_web_sitemap ex_services ex_config ex_state_synced
                       = Some (st', Inr result)
                   \<and> db_rows st' = db_rows ex_state_synced)"
proof -
  let ?P = "{''https://example.org/a'', ''https://example.org/b''}"
  let ?D = "{''https://example.org/c.PDF''}"
  let ?ac = "pipeline_chunks ex_services ?P ?D"
  have h1: "validate ex_config = Inr ()"
    by (simp add: validate_def ex_config_def falsy_def)
  have h2: "crawl ex_web_sitemap ex_config None = Some (Inr (?P, ?D))"
    by code_simp
  have fu: "fresh_urls ?ac = set [''https://example.org/a'', ''https://example.org/b'']"
    by code_simp
  have la: "list_all (\<lambda>u. fresh_fingerprints ?ac u = stored_fingerprints ex_state_synced u)
              [''https://example.org/a'', ''https://example.org/b'']"
    by code_simp
  then have h3: "\<forall>u \<in> fresh_urls ?ac.
                   fresh_fingerprints ?ac u = stored_fingerprints ex_state_synced u"
    unfolding fu list_all_iff .
  from run_pipeline_unchanged_is_noop [OF h1 h2 h3]
  have "\<exists>st' result. run_pipeline ex_web_sitemap ex_services ex_config ex_state_synced
                       = Some (st', Inr result)
                   \<and> db_rows st' = db_rows ex_state_synced"
    by blast
  then show ?thesis
    using h1 h2 la by blast
qed

end
